theory Spec2Isabelle
  imports Complex_Main "HOL-Library.Sublist"
begin

section \<open>Data model (models/document.py)\<close>

text \<open>
  Python floats are modelled as reals. The code never does arithmetic on the scores it
  handles in the parts modelled here: it only stores them, takes \<open>max\<close> and compares
  them, so only the order of the values matters, and a decimal literal of the source stands
  for that literal's value. Python's unbounded integers are \<open>int\<close>. Strings are
  \<open>string\<close>, lists of characters with code points below 256. Clock readings
  (\<open>datetime.utcnow()\<close>) are inputs of the functions that take them.
\<close>

type_synonym timestamp = nat

datatype ProcessingStatus =
  PENDING | PARSING | STRUCTURING | VALIDATING | HIGHLIGHTING | STORING | COMPLETED | FAILED

datatype DocumentType = PDF | PNG | JPEG | JPG

text \<open>A value as \<open>json.loads\<close> returns it: \<open>JNull\<close> is Python's \<open>None\<close>, a
  dict is an association list in insertion order.\<close>

datatype json =
  JNull
  | JBool bool
  | JInt int
  | JFloat real
  | JStr string
  | JList "json list"
  | JDict "(string \<times> json) list"

record BoundingBox =
  box_x :: real
  box_y :: real
  box_width :: real
  box_height :: real

record VisualGrounding =
  page_number :: int
  bounding_box :: BoundingBox
  g_confidence :: real

text \<open>\<open>content: Union[str, Dict[str, Any]]\<close>.\<close>

datatype content = ContentStr string | ContentDict "(string \<times> json) list"

record ExtractedElement =
  elem_id :: string
  elem_type :: string
  elem_content :: content
  parent_id :: "string option"
  children_ids :: "string list"
  grounding :: VisualGrounding
  elem_metadata :: "(string \<times> json) list"
  confidence :: real
  validated :: bool
  corrections :: "(string \<times> json) list option"

record DocumentMetadata =
  filename :: string
  file_size :: nat
  document_type :: DocumentType
  page_count :: int
  upload_timestamp :: timestamp
  ocr_languages :: "string list"
  ocr_models_used :: "string list"

text \<open>
  The lines of the processing log. Each constructor is one of the format strings the
  source appends; its arguments are the values formatted into it.
\<close>

datatype log_line =
  StartedProcessing timestamp
  | StartedParsing timestamp
  | ParsedElements nat
  | StartedStructuring timestamp
  | StructuredInto nat
  | EnhancedStructure nat
  | StartedValidation timestamp
  | EnhancedValidation nat
  | ValidatedElements nat
  | StartedHighlighting timestamp
  | CreatedHighlights
  | StartedStoring timestamp
  | CompletedProcessing timestamp
  | StatusMessage timestamp string

text \<open>The summary \<open>_store_step\<close> computes (\<open>structured_data\<close>).\<close>

record element_brief =
  brief_id :: string
  brief_type :: string
  brief_content :: string
  brief_confidence :: real
  brief_validated :: bool

record structured_summary =
  total_elements :: nat
  summary_pages :: int
  text_elements :: nat
  table_elements :: nat
  validated_elements :: nat
  elements_by_page :: "(int \<times> element_brief list) list"

record ProcessingResult =
  transaction_id :: string
  status :: ProcessingStatus
  metadata :: DocumentMetadata
  extracted_elements :: "ExtractedElement list"
  raw_text :: "string option"
  structured_data :: "structured_summary option"
  error_message :: "string option"
  processing_log :: "log_line list"
  created_at :: timestamp
  updated_at :: timestamp

section \<open>Result store (services/storage.py)\<close>

text \<open>
  \<open>InMemoryStorage\<close> keeps the results in a dict and mirrors each one into a file named
  after the transaction id. A file either holds a snapshot that \<open>ProcessingResult(**data)\<close>
  accepts, or something it rejects.
\<close>

datatype disk_file = Snapshot ProcessingResult | Unreadable

record storage =
  results :: "string \<rightharpoonup> ProcessingResult"
  files :: "string \<rightharpoonup> disk_file"

text \<open>
  \<open>store_result\<close>: the dict is written first, then the file. \<open>disk_ok\<close> says whether
  opening the file for writing succeeds; when it does not, the exception is caught, the
  dict keeps the new result and the function returns \<open>False\<close>.
\<close>

definition store_result :: "ProcessingResult \<Rightarrow> bool \<Rightarrow> storage \<Rightarrow> bool \<times> storage" where
  "store_result result disk_ok st =
     (let st1 = st\<lparr>results := (results st)(transaction_id result \<mapsto> result)\<rparr>
      in if disk_ok
         then (True, st1\<lparr>files := (files st1)(transaction_id result \<mapsto> Snapshot result)\<rparr>)
         else (False, st1))"

text \<open>
  \<open>get_result\<close>: memory first, then the file, which is cached in memory when it loads.
  A file that does not load raises inside the \<open>try\<close>, and the function returns \<open>None\<close>.
\<close>

definition get_result :: "string \<Rightarrow> storage \<Rightarrow> ProcessingResult option \<times> storage" where
  "get_result tid st =
     (case results st tid of
        Some r \<Rightarrow> (Some r, st)
      | None \<Rightarrow>
          (case files st tid of
             Some (Snapshot r) \<Rightarrow> (Some r, st\<lparr>results := (results st)(tid \<mapsto> r)\<rparr>)
           | Some Unreadable \<Rightarrow> (None, st)
           | None \<Rightarrow> (None, st)))"

text \<open>
  \<open>update_status\<close>: \<open>if message:\<close> holds for a message that is neither \<open>None\<close> nor
  empty. The message goes into the processing log; no other field but the status and
  \<open>updated_at\<close> is written. The result that \<open>get_result\<close> returns is the object the
  dict holds under the id, and it is changed in place: the dict holds the changed result
  under that id before \<open>store_result\<close> writes it under the id the result carries.
  \<open>True\<close> is returned whatever \<open>store_result\<close> returns. The two readings of the clock
  (for \<open>updated_at\<close> and for the log line) are one input \<open>now\<close>.
\<close>

definition update_status ::
  "string \<Rightarrow> ProcessingStatus \<Rightarrow> string option \<Rightarrow> timestamp \<Rightarrow> bool \<Rightarrow> storage \<Rightarrow> bool \<times> storage" where
  "update_status tid new_status message now disk_ok st =
     (case get_result tid st of
        (Some result, st1) \<Rightarrow>
          (let r1 = result\<lparr>status := new_status, updated_at := now\<rparr>;
               r2 = (case message of
                       Some m \<Rightarrow>
                         if m \<noteq> []
                         then r1\<lparr>processing_log := processing_log r1 @ [StatusMessage now m]\<rparr>
                         else r1
                     | None \<Rightarrow> r1);
               st2 = st1\<lparr>results := (results st1)(tid \<mapsto> r2)\<rparr>
           in (True, snd (store_result r2 disk_ok st2)))
      | (None, st1) \<Rightarrow> (False, st1))"

section \<open>Merging per-chunk extraction results (services/llm\_service.py)\<close>

text \<open>
  A Python dict keeps its keys in insertion order: assigning to a key that is present
  replaces the value in place, a new key goes to the end.
\<close>

fun dict_set :: "string \<Rightarrow> json \<Rightarrow> (string \<times> json) list \<Rightarrow> (string \<times> json) list" where
  "dict_set k v [] = [(k, v)]"
| "dict_set k v ((k', v') # d) = (if k' = k then (k, v) # d else (k', v') # dict_set k v d)"

text \<open>\<open>d.update(other)\<close>.\<close>

definition dict_update :: "(string \<times> json) list \<Rightarrow> (string \<times> json) list \<Rightarrow> (string \<times> json) list" where
  "dict_update d other = foldl (\<lambda>acc (k, v). dict_set k v acc) d other"

definition isinstance_list :: "json \<Rightarrow> bool" where
  "isinstance_list v = (case v of JList _ \<Rightarrow> True | _ \<Rightarrow> False)"

definition isinstance_dict :: "json \<Rightarrow> bool" where
  "isinstance_dict v = (case v of JDict _ \<Rightarrow> True | _ \<Rightarrow> False)"

text \<open>
  The body of the inner loop of \<open>_merge_extraction_results\<close>, for one \<open>(key, value)\<close>
  of a later result. The \<open>elif\<close> chain has no final \<open>else\<close>: in every other case
  \<open>merged\<close> stays as it is. The lists and dicts that Python extends in place are values
  here; the results come from separate \<open>json.loads\<close> calls and share no object.
\<close>

definition merge_item :: "(string \<times> json) list \<Rightarrow> string \<times> json \<Rightarrow> (string \<times> json) list" where
  "merge_item merged kv =
     (case kv of (key, val) \<Rightarrow>
        (case map_of merged key of
           None \<Rightarrow> dict_set key val merged
         | Some old \<Rightarrow>
             (case (old, val) of
                (JList a, JList b) \<Rightarrow> dict_set key (JList (a @ b)) merged
              | (JDict a, JDict b) \<Rightarrow> dict_set key (JDict (dict_update a b)) merged
              | _ \<Rightarrow> if old = JNull \<or> old = JStr [] then dict_set key val merged else merged)))"

definition merge_result :: "(string \<times> json) list \<Rightarrow> (string \<times> json) list \<Rightarrow> (string \<times> json) list" where
  "merge_result merged result = foldl merge_item merged result"

text \<open>\<open>_fallback_extraction\<close>: an empty value of the schema's kind for every key.\<close>

definition fallback_extraction :: "(string \<times> json) list \<Rightarrow> (string \<times> json) list" where
  "fallback_extraction schema =
     foldl (\<lambda>result (key, s).
              dict_set key (case s of JDict _ \<Rightarrow> JDict [] | JList _ \<Rightarrow> JList [] | _ \<Rightarrow> JNull) result)
       [] schema"

definition merge_extraction_results ::
  "(string \<times> json) list list \<Rightarrow> (string \<times> json) list \<Rightarrow> (string \<times> json) list" where
  "merge_extraction_results rs schema =
     (case rs of
        [] \<Rightarrow> fallback_extraction schema
      | first # rest \<Rightarrow> foldl merge_result first rest)"

text \<open>The rules of the merge as one function: what one \<open>(key, value)\<close> leaves under its key, given what was there. It is
  compared with \<open>merge_item\<close> in \<open>map_of_merge_item\<close>.\<close>

fun merged_value :: "json option \<Rightarrow> json \<Rightarrow> json" where
  "merged_value None v = v"
| "merged_value (Some (JList a)) (JList b) = JList (a @ b)"
| "merged_value (Some (JDict a)) (JDict b) = JDict (dict_update a b)"
| "merged_value (Some JNull) v = v"
| "merged_value (Some (JStr s)) v = (if s = [] then v else JStr s)"
| "merged_value (Some old) v = old"

section \<open>Validation stage (agents/simple\_workflow.py, \_validate\_step)\<close>

text \<open>
  \<open>str.isspace\<close> on the characters a \<open>char\<close> can hold (code points below 256): the
  ASCII white space, the four separators 28 to 31, NEL (133) and the no-break space (160).
\<close>

definition isspace :: "char \<Rightarrow> bool" where
  "isspace c = (of_char c \<in> {9, 10, 11, 12, 13, 28, 29, 30, 31, 32, 133, 160 :: nat})"

definition strip :: "string \<Rightarrow> string" where
  "strip s = rev (dropWhile isspace (rev (dropWhile isspace s)))"

text \<open>Python's truth value of a JSON value.\<close>

fun truthy :: "json \<Rightarrow> bool" where
  "truthy JNull = False"
| "truthy (JBool b) = b"
| "truthy (JInt i) = (i \<noteq> 0)"
| "truthy (JFloat r) = (r \<noteq> 0)"
| "truthy (JStr s) = (s \<noteq> [])"
| "truthy (JList l) = (l \<noteq> [])"
| "truthy (JDict d) = (d \<noteq> [])"

text \<open>The body of the loop "Basic validation for all elements", for one element.\<close>

definition validate_element :: "real \<Rightarrow> ExtractedElement \<Rightarrow> ExtractedElement" where
  "validate_element confidence_threshold element =
     (let e1 =
        (if elem_type element = ''text'' then
           (case elem_content element of
              ContentStr s \<Rightarrow>
                if length (strip s) > 0
                then element\<lparr>confidence := max (confidence element) 0.8\<rparr>
                else element\<lparr>confidence := 0.3\<rparr>
            | ContentDict _ \<Rightarrow> element\<lparr>confidence := 0.3\<rparr>)
         else if elem_type element = ''table'' then
           (case elem_content element of
              ContentDict d \<Rightarrow>
                (case map_of d ''rows'' of
                   Some rows \<Rightarrow>
                     if truthy rows
                     then element\<lparr>confidence := max (confidence element) 0.9\<rparr>
                     else element\<lparr>confidence := 0.4\<rparr>
                 | None \<Rightarrow> element\<lparr>confidence := 0.4\<rparr>)
            | ContentStr _ \<Rightarrow> element\<lparr>confidence := 0.4\<rparr>)
         else if elem_type element = ''page'' then element\<lparr>confidence := 1.0\<rparr>
         else element)
      in e1\<lparr>validated := (confidence e1 \<ge> confidence_threshold)\<rparr>)"

definition basic_validation :: "real \<Rightarrow> ExtractedElement list \<Rightarrow> ExtractedElement list" where
  "basic_validation confidence_threshold elements = map (validate_element confidence_threshold) elements"

text \<open>Two elements to try the rules on: a text element of two blanks and a one-row table.\<close>

definition blank_text_element :: ExtractedElement where
  "blank_text_element =
     \<lparr>elem_id = ''text_1_0'', elem_type = ''text'', elem_content = ContentStr ''  '',
      parent_id = Some ''page_1'', children_ids = [],
      grounding = \<lparr>page_number = 1,
                   bounding_box = \<lparr>box_x = 0, box_y = 0, box_width = 0.1, box_height = 0.05\<rparr>,
                   g_confidence = 0.8\<rparr>,
      elem_metadata = [], confidence = 0.8, validated = False, corrections = None\<rparr>"

definition one_row_table_element :: ExtractedElement where
  "one_row_table_element =
     \<lparr>elem_id = ''table_1_0'', elem_type = ''table'',
      elem_content = ContentDict [(''rows'', JList [JList [JStr ''h'']]), (''table_id'', JStr ''table_1_0'')],
      parent_id = Some ''page_1'', children_ids = [],
      grounding = \<lparr>page_number = 1,
                   bounding_box = \<lparr>box_x = 0, box_y = 0, box_width = 0.8, box_height = 0.3\<rparr>,
                   g_confidence = 0.9\<rparr>,
      elem_metadata = [], confidence = 0.9, validated = False, corrections = None\<rparr>"

section \<open>Structuring stage: the element tree (agents/simple\_workflow.py, \_structure\_step)\<close>

text \<open>
  A raw fragment is the dict the extractor emits. The keys the structuring step reads are
  fields here, \<open>None\<close> for a key that is absent (\<open>.get\<close> then takes its default).
  The values have the types \<open>ExtractedElement\<close> accepts.
\<close>

record raw_bbox =
  rb_x :: "real option"
  rb_y :: "real option"
  rb_width :: "real option"
  rb_height :: "real option"

record raw_fragment =
  frag_type :: "string option"
  frag_page :: "int option"
  frag_text :: "string option"
  frag_bbox :: "raw_bbox option"
  frag_confidence :: "real option"
  frag_content :: "json option"
  frag_table_id :: "json option"

text \<open>\<open>str\<close> of an integer, for the element ids.\<close>

fun str_nat :: "nat \<Rightarrow> string" where
  "str_nat n =
     (if n < 10 then [char_of (48 + n)] else str_nat (n div 10) @ [char_of (48 + n mod 10)])"

declare str_nat.simps [simp del]

definition str_int :: "int \<Rightarrow> string" where
  "str_int i = (if i < 0 then CHR ''-'' # str_nat (nat (- i)) else str_nat (nat i))"

text \<open>\<open>d.get(key, default)\<close>.\<close>

definition get_or :: "'a option \<Rightarrow> 'a \<Rightarrow> 'a" where
  "get_or v d = (case v of None \<Rightarrow> d | Some x \<Rightarrow> x)"

text \<open>\<open>page_num = element.get('page', 1)\<close>.\<close>

definition page_of :: "raw_fragment \<Rightarrow> int" where
  "page_of element = get_or (frag_page element) 1"

text \<open>The value of \<open>pages[page_num]\<close>: the three lists of one page.\<close>

record page_groups =
  pg_text :: "raw_fragment list"
  pg_tables :: "raw_fragment list"
  pg_other :: "raw_fragment list"

definition empty_groups :: page_groups where
  "empty_groups = \<lparr>pg_text = [], pg_tables = [], pg_other = []\<rparr>"

definition file_fragment :: "raw_fragment \<Rightarrow> page_groups \<Rightarrow> page_groups" where
  "file_fragment element g =
     (if frag_type element = Some ''table'' then g\<lparr>pg_tables := pg_tables g @ [element]\<rparr>
      else if frag_type element = Some ''text'' then g\<lparr>pg_text := pg_text g @ [element]\<rparr>
      else g\<lparr>pg_other := pg_other g @ [element]\<rparr>)"

text \<open>
  One round of the grouping loop on the dict \<open>pages\<close> (an association list in insertion
  order): a page that is not there yet is added at the end with three empty lists, and the
  fragment goes into the list of its type.
\<close>

fun pages_add :: "int \<Rightarrow> raw_fragment \<Rightarrow> (int \<times> page_groups) list \<Rightarrow> (int \<times> page_groups) list" where
  "pages_add page_num element [] = [(page_num, file_fragment element empty_groups)]"
| "pages_add page_num element ((p, g) # rest) =
     (if p = page_num then (p, file_fragment element g) # rest
      else (p, g) # pages_add page_num element rest)"

definition group_by_page :: "raw_fragment list \<Rightarrow> (int \<times> page_groups) list" where
  "group_by_page raw_elements =
     foldl (\<lambda>acc element. pages_add (page_of element) element acc) [] raw_elements"

definition page_element :: "int \<Rightarrow> string list \<Rightarrow> ExtractedElement" where
  "page_element page_num children =
     \<lparr>elem_id = ''page_'' @ str_int page_num, elem_type = ''page'',
      elem_content = ContentStr (''Page '' @ str_int page_num),
      parent_id = None, children_ids = children,
      grounding = \<lparr>page_number = page_num,
                   bounding_box = \<lparr>box_x = 0, box_y = 0, box_width = 1, box_height = 1\<rparr>,
                   g_confidence = 1.0\<rparr>,
      elem_metadata = [], confidence = 1.0, validated = False, corrections = None\<rparr>"

text \<open>\<open>bbox = elem.get('bbox', {})\<close> followed by \<open>bbox.get(key, default)\<close>.\<close>

definition bbox_get :: "raw_bbox option \<Rightarrow> (raw_bbox \<Rightarrow> real option) \<Rightarrow> real \<Rightarrow> real" where
  "bbox_get bbox field d = (case bbox of None \<Rightarrow> d | Some b \<Rightarrow> get_or (field b) d)"

definition text_element :: "int \<Rightarrow> nat \<Rightarrow> raw_fragment \<Rightarrow> ExtractedElement" where
  "text_element page_num i text_elem =
     \<lparr>elem_id = ''text_'' @ str_int page_num @ ''_'' @ str_nat i, elem_type = ''text'',
      elem_content = ContentStr (get_or (frag_text text_elem) []),
      parent_id = Some (''page_'' @ str_int page_num), children_ids = [],
      grounding = \<lparr>page_number = page_num,
                   bounding_box = \<lparr>box_x = bbox_get (frag_bbox text_elem) rb_x 0,
                                   box_y = bbox_get (frag_bbox text_elem) rb_y 0,
                                   box_width = bbox_get (frag_bbox text_elem) rb_width 0.1,
                                   box_height = bbox_get (frag_bbox text_elem) rb_height 0.05\<rparr>,
                   g_confidence = get_or (frag_confidence text_elem) 0.8\<rparr>,
      elem_metadata = [], confidence = get_or (frag_confidence text_elem) 0.8,
      validated = False, corrections = None\<rparr>"

definition table_element :: "int \<Rightarrow> nat \<Rightarrow> raw_fragment \<Rightarrow> ExtractedElement" where
  "table_element page_num i table_elem =
     \<lparr>elem_id = ''table_'' @ str_int page_num @ ''_'' @ str_nat i, elem_type = ''table'',
      elem_content = ContentDict
        [(''rows'', get_or (frag_content table_elem) (JList [])),
         (''table_id'', get_or (frag_table_id table_elem)
                          (JStr (''table_'' @ str_int page_num @ ''_'' @ str_nat i)))],
      parent_id = Some (''page_'' @ str_int page_num), children_ids = [],
      grounding = \<lparr>page_number = page_num,
                   bounding_box = \<lparr>box_x = bbox_get (frag_bbox table_elem) rb_x 0,
                                   box_y = bbox_get (frag_bbox table_elem) rb_y 0,
                                   box_width = bbox_get (frag_bbox table_elem) rb_width 0.8,
                                   box_height = bbox_get (frag_bbox table_elem) rb_height 0.3\<rparr>,
                   g_confidence = 0.9\<rparr>,
      elem_metadata = [], confidence = 0.9, validated = False, corrections = None\<rparr>"

text \<open>The two inner loops, over \<open>enumerate(page_elements['text'])\<close> and \<open>['tables']\<close>.\<close>

definition page_texts :: "int \<Rightarrow> page_groups \<Rightarrow> ExtractedElement list" where
  "page_texts page_num g =
     map (\<lambda>(i, text_elem). text_element page_num i text_elem) (enumerate 0 (pg_text g))"

definition page_tables :: "int \<Rightarrow> page_groups \<Rightarrow> ExtractedElement list" where
  "page_tables page_num g =
     map (\<lambda>(i, table_elem). table_element page_num i table_elem) (enumerate 0 (pg_tables g))"

text \<open>
  One round of the loop over \<open>pages.items()\<close>. The page element is appended first and
  receives its children ids while the children are appended after it; it is the same
  object, so the list ends up holding the page element with all its children ids.
\<close>

definition structure_page :: "int \<times> page_groups \<Rightarrow> ExtractedElement list" where
  "structure_page entry =
     (case entry of (page_num, page_elements) \<Rightarrow>
        page_element page_num
          (map elem_id (page_texts page_num page_elements)
           @ map elem_id (page_tables page_num page_elements))
        # page_texts page_num page_elements @ page_tables page_num page_elements)"

definition build_elements :: "raw_fragment list \<Rightarrow> ExtractedElement list" where
  "build_elements raw_elements = concat (map structure_page (group_by_page raw_elements))"

text \<open>Fragments to run the builder on: text without a box, and a table without a box.\<close>

definition text_fragment :: "int option \<Rightarrow> string \<Rightarrow> raw_fragment" where
  "text_fragment p s =
     \<lparr>frag_type = Some ''text'', frag_page = p, frag_text = Some s, frag_bbox = None,
      frag_confidence = None, frag_content = None, frag_table_id = None\<rparr>"

definition bare_table :: "int option \<Rightarrow> raw_fragment" where
  "bare_table p =
     \<lparr>frag_type = Some ''table'', frag_page = p, frag_text = None, frag_bbox = None,
      frag_confidence = None, frag_content = Some (JList [JList [JStr ''h'']]),
      frag_table_id = None\<rparr>"

section \<open>Text chunking (utils/text\_chunking.py, chunk\_text)\<close>

text \<open>The two separators: a blank line between paragraphs, a full stop and a blank between
  sentences.\<close>

definition para_sep :: string where
  "para_sep = [CHR 0x0A, CHR 0x0A]"

definition sent_sep :: string where
  "sent_sep = ''. ''"

text \<open>
  \<open>s.split(sep)\<close> for a separator that is not empty: the text is cut at every occurrence
  of the separator, found from left to right without overlap. \<open>cur\<close> is the piece being
  read.
\<close>

function split_acc :: "string \<Rightarrow> string \<Rightarrow> string \<Rightarrow> string list" where
  "split_acc sep cur [] = [cur]"
| "split_acc sep cur (c # cs) =
     (if sep \<noteq> [] \<and> prefix sep (c # cs)
      then cur # split_acc sep [] (drop (length sep) (c # cs))
      else split_acc sep (cur @ [c]) cs)"
  by pat_completeness auto
termination
  by (relation "measure (\<lambda>(sep, cur, s). length s)") auto

definition py_split :: "string \<Rightarrow> string \<Rightarrow> string list" where
  "py_split s sep = split_acc sep [] s"

text \<open>\<open>[sentence[i:i+n] for i in range(0, len(sentence), n)]\<close> for a positive step.\<close>

function pieces :: "nat \<Rightarrow> string \<Rightarrow> string list" where
  "pieces n s = (if n = 0 \<or> s = [] then [] else take n s # pieces n (drop n s))"
  by pat_completeness auto
termination
  by (relation "measure (\<lambda>(n, s). length s)") auto

declare pieces.simps [simp del]

text \<open>
  The split by character. \<open>range\<close> raises \<open>ValueError\<close> for the step 0 (the result
  \<open>None\<close>) and is empty for a negative step.
\<close>

definition char_pieces :: "int \<Rightarrow> string \<Rightarrow> string list option" where
  "char_pieces max_chunk_size sentence =
     (if max_chunk_size = 0 then None
      else if max_chunk_size < 0 then Some []
      else Some (pieces (nat max_chunk_size) sentence))"

text \<open>
  The state of the loops is the pair \<open>(chunks, current_chunk)\<close>.
  \<open>flush\<close> is \<open>if current_chunk: chunks.append(current_chunk); current_chunk = ""\<close>.
\<close>

definition flush :: "string list \<times> string \<Rightarrow> string list \<times> string" where
  "flush st = (case st of (chunks, current_chunk) \<Rightarrow>
     if current_chunk \<noteq> [] then (chunks @ [current_chunk], []) else (chunks, current_chunk))"

text \<open>The body of the loop over the sentences of a paragraph that is too long.\<close>

definition sentence_step ::
  "int \<Rightarrow> string \<Rightarrow> string list \<times> string \<Rightarrow> (string list \<times> string) option" where
  "sentence_step max_chunk_size sentence st =
     (case st of (chunks, current_chunk) \<Rightarrow>
        if int (length current_chunk) + int (length sentence) + 2 > max_chunk_size then
          (case flush (chunks, current_chunk) of (chunks1, current1) \<Rightarrow>
             if int (length sentence) > max_chunk_size then
               (case char_pieces max_chunk_size sentence of
                  None \<Rightarrow> None
                | Some ps \<Rightarrow> Some (chunks1 @ ps, current1))
             else Some (chunks1, sentence))
        else if current_chunk \<noteq> [] then Some (chunks, current_chunk @ sent_sep @ sentence)
        else Some (chunks, sentence))"

fun sentence_loop ::
  "int \<Rightarrow> string list \<Rightarrow> string list \<times> string \<Rightarrow> (string list \<times> string) option" where
  "sentence_loop max_chunk_size [] st = Some st"
| "sentence_loop max_chunk_size (sentence # rest) st =
     (case sentence_step max_chunk_size sentence st of
        None \<Rightarrow> None
      | Some st1 \<Rightarrow> sentence_loop max_chunk_size rest st1)"

text \<open>The body of the loop over the paragraphs.\<close>

definition paragraph_step ::
  "int \<Rightarrow> string \<Rightarrow> string list \<times> string \<Rightarrow> (string list \<times> string) option" where
  "paragraph_step max_chunk_size paragraph st =
     (case st of (chunks, current_chunk) \<Rightarrow>
        if int (length current_chunk) + int (length paragraph) + 2 > max_chunk_size then
          (case flush (chunks, current_chunk) of (chunks1, current1) \<Rightarrow>
             if int (length paragraph) > max_chunk_size then
               sentence_loop max_chunk_size (py_split paragraph sent_sep) (chunks1, current1)
             else Some (chunks1, paragraph))
        else if current_chunk \<noteq> [] then Some (chunks, current_chunk @ para_sep @ paragraph)
        else Some (chunks, paragraph))"

fun paragraph_loop ::
  "int \<Rightarrow> string list \<Rightarrow> string list \<times> string \<Rightarrow> (string list \<times> string) option" where
  "paragraph_loop max_chunk_size [] st = Some st"
| "paragraph_loop max_chunk_size (paragraph # rest) st =
     (case paragraph_step max_chunk_size paragraph st of
        None \<Rightarrow> None
      | Some st1 \<Rightarrow> paragraph_loop max_chunk_size rest st1)"

definition chunk_text :: "string \<Rightarrow> int \<Rightarrow> string list option" where
  "chunk_text text max_chunk_size =
     (if int (length text) \<le> max_chunk_size then Some [text]
      else
        (case paragraph_loop max_chunk_size (py_split text para_sep) ([], []) of
           None \<Rightarrow> None
         | Some (chunks, current_chunk) \<Rightarrow>
             Some (if current_chunk \<noteq> [] then chunks @ [current_chunk] else chunks)))"

text \<open>
  Putting chunks together again. \<open>rejoins_exactly chunks t\<close>: \<open>t\<close> is the chunks in
  order with, between two neighbours, one separator or nothing (nothing where the cut was
  made between two characters).
\<close>

fun rejoins_exactly :: "string list \<Rightarrow> string \<Rightarrow> bool" where
  "rejoins_exactly [] t = (t = [])"
| "rejoins_exactly [c] t = (t = c)"
| "rejoins_exactly (c # d # cs) t =
     (prefix c t \<and>
      (let r = drop (length c) t in
         rejoins_exactly (d # cs) r
         \<or> (prefix para_sep r \<and> rejoins_exactly (d # cs) (drop (length para_sep) r))
         \<or> (prefix sent_sep r \<and> rejoins_exactly (d # cs) (drop (length sent_sep) r))))"

text \<open>
  \<open>joiner_runs\<close>: the strings made of separators only. \<open>rejoins chunks t\<close>: \<open>t\<close> is
  the chunks in order with a run of separators (possibly empty) before the first chunk,
  between two neighbours and after the last chunk.
\<close>

inductive_set joiner_runs :: "string set" where
  no_joiner: "[] \<in> joiner_runs"
| para_joiner: "g \<in> joiner_runs \<Longrightarrow> para_sep @ g \<in> joiner_runs"
| sent_joiner: "g \<in> joiner_runs \<Longrightarrow> sent_sep @ g \<in> joiner_runs"

inductive rejoins :: "string list \<Rightarrow> string \<Rightarrow> bool" where
  rejoins_end: "g \<in> joiner_runs \<Longrightarrow> rejoins [] g"
| rejoins_chunk: "g \<in> joiner_runs \<Longrightarrow> rejoins cs t \<Longrightarrow> rejoins (c # cs) (g @ c @ t)"

text \<open>\<open>sep.join(parts)\<close>, to state what \<open>split\<close> keeps.\<close>

fun join :: "string \<Rightarrow> string list \<Rightarrow> string" where
  "join sep [] = []"
| "join sep [x] = x"
| "join sep (x # y # ys) = x @ sep @ join sep (y # ys)"

text \<open>
  The invariant of both loops: the text read so far is the chunks closed so far, put
  together with runs of separators, followed by the current chunk; and no chunk, closed
  or current, is longer than the limit.
\<close>

definition covers :: "string list \<times> string \<Rightarrow> string \<Rightarrow> bool" where
  "covers st t = (\<exists>a. rejoins (fst st) a \<and> t = a @ snd st)"

definition bounded :: "int \<Rightarrow> string list \<times> string \<Rightarrow> bool" where
  "bounded m st = ((\<forall>c \<in> set (fst st). int (length c) \<le> m) \<and> int (length (snd st)) \<le> m)"

section \<open>The rate-limited scheduler (utils/text\_chunking.py, process\_chunks\_with\_rate\_limit)\<close>

text \<open>
  A worker invocation \<open>process_func(chunk, index, total)\<close> either returns a result or
  raises; \<open>Inl\<close> carries the message of the exception.

  The loop \<open>for completed_task in asyncio.as_completed(tasks)\<close> awaits the tasks in the
  order in which they complete and appends each result. Awaiting a task whose worker
  raised raises that exception again, out of the loop and out of the function: there is no
  \<open>try\<close> in \<open>process_with_semaphore\<close> or around the \<open>await\<close>.
\<close>

fun collect_results :: "(string + 'r) list \<Rightarrow> 'r list \<Rightarrow> string + 'r list" where
  "collect_results [] collected = Inr collected"
| "collect_results (Inl e # rest) collected = Inl e"
| "collect_results (Inr r # rest) collected = collect_results rest (collected @ [r])"

text \<open>
  The function as a whole. The order in which the tasks complete is decided by the event
  loop and is an input here (\<open>completion_order\<close>, the indices of the chunks).
  \<open>asyncio.Semaphore\<close> raises \<open>ValueError\<close> for a negative initial value; with the
  value 0 no task ever enters and the function does not return (\<open>None\<close>) unless there is
  nothing to do. The delay only takes time and is left out.
\<close>

definition process_chunks_with_rate_limit ::
  "'c list \<Rightarrow> ('c \<Rightarrow> nat \<Rightarrow> nat \<Rightarrow> string + 'r) \<Rightarrow> int \<Rightarrow> nat list \<Rightarrow> (string + 'r list) option" where
  "process_chunks_with_rate_limit chunks process_func max_concurrent completion_order =
     (if max_concurrent < 0 then Some (Inl ''Semaphore initial value must be >= 0'')
      else if max_concurrent = 0 \<and> chunks \<noteq> [] then None
      else Some (collect_results
                   (map (\<lambda>i. process_func (chunks ! i) i (length chunks)) completion_order) []))"

text \<open>
  The tasks one by one. Each task runs \<open>process_with_semaphore\<close>: it waits for the
  semaphore, runs the worker, sleeps, and leaves the \<open>async with\<close> block, which releases
  the semaphore; a worker that raises leaves the block at once. The state records the phase
  of every task, the counter of the semaphore, and the orders in which the tasks entered
  the block and completed.
\<close>

datatype phase = Waiting | Working | Sleeping | Done

record sched =
  phases :: "phase list"
  sem_value :: nat
  started :: "nat list"
  completed :: "nat list"

definition sched_init :: "nat \<Rightarrow> nat \<Rightarrow> sched" where
  "sched_init max_concurrent total_chunks =
     \<lparr>phases = replicate total_chunks Waiting, sem_value = max_concurrent,
      started = [], completed = []\<rparr>"

text \<open>
  One step of one task \<open>i\<close>. \<open>succeeds i\<close> says whether the worker of task \<open>i\<close>
  returns. Which task moves next is not determined: the event loop starts the tasks in the
  order of a set of coroutine objects.
\<close>

inductive sched_step :: "(nat \<Rightarrow> bool) \<Rightarrow> sched \<Rightarrow> sched \<Rightarrow> bool" for succeeds where
  acquire:
    "i < length (phases s) \<Longrightarrow> phases s ! i = Waiting \<Longrightarrow> 0 < sem_value s \<Longrightarrow>
     sched_step succeeds s
       (s\<lparr>phases := (phases s)[i := Working], sem_value := sem_value s - 1,
          started := started s @ [i]\<rparr>)"
| worker_returns:
    "i < length (phases s) \<Longrightarrow> phases s ! i = Working \<Longrightarrow> succeeds i \<Longrightarrow>
     sched_step succeeds s (s\<lparr>phases := (phases s)[i := Sleeping]\<rparr>)"
| worker_raises:
    "i < length (phases s) \<Longrightarrow> phases s ! i = Working \<Longrightarrow> \<not> succeeds i \<Longrightarrow>
     sched_step succeeds s
       (s\<lparr>phases := (phases s)[i := Done], sem_value := sem_value s + 1,
          completed := completed s @ [i]\<rparr>)"
| wake_and_release:
    "i < length (phases s) \<Longrightarrow> phases s ! i = Sleeping \<Longrightarrow>
     sched_step succeeds s
       (s\<lparr>phases := (phases s)[i := Done], sem_value := sem_value s + 1,
          completed := completed s @ [i]\<rparr>)"

inductive sched_reachable :: "(nat \<Rightarrow> bool) \<Rightarrow> nat \<Rightarrow> nat \<Rightarrow> sched \<Rightarrow> bool"
  for succeeds max_concurrent total_chunks where
  sched_start: "sched_reachable succeeds max_concurrent total_chunks (sched_init max_concurrent total_chunks)"
| sched_next: "sched_reachable succeeds max_concurrent total_chunks s \<Longrightarrow> sched_step succeeds s t \<Longrightarrow>
     sched_reachable succeeds max_concurrent total_chunks t"

text \<open>The worker invocations in flight, and the tasks inside the \<open>async with\<close> block.\<close>

definition active :: "sched \<Rightarrow> nat" where
  "active s = length (filter (\<lambda>p. p = Working) (phases s))"

definition holding :: "sched \<Rightarrow> nat" where
  "holding s = length (filter (\<lambda>p. p = Working \<or> p = Sleeping) (phases s))"

text \<open>The invariant for one slot: the semaphore is free and every started task has
  completed, or it is taken by the one task that has started and not completed.\<close>

definition serial_inv :: "sched \<Rightarrow> bool" where
  "serial_inv s =
     ((sem_value s = 1 \<and> started s = completed s
        \<and> (\<forall>j < length (phases s). phases s ! j \<noteq> Working \<and> phases s ! j \<noteq> Sleeping))
      \<or> (sem_value s = 0
          \<and> (\<exists>i < length (phases s). started s = completed s @ [i]
                \<and> (\<forall>j < length (phases s).
                      (phases s ! j = Working \<or> phases s ! j = Sleeping) = (j = i)))))"

text \<open>Runs to try the scheduler on: every worker returns; the worker of the second chunk
  raises. With one slot and two chunks, the task of the second chunk may run first.\<close>

definition every_worker_returns :: "nat \<Rightarrow> bool" where
  "every_worker_returns i = True"

definition second_worker_raises :: "string \<Rightarrow> nat \<Rightarrow> nat \<Rightarrow> string + string" where
  "second_worker_raises chunk index total_chunks = (if index = 1 then Inl ''boom'' else Inr chunk)"

definition second_task_running :: sched where
  "second_task_running = \<lparr>phases = [Waiting, Working], sem_value = 0, started = [1], completed = []\<rparr>"

definition second_task_first :: sched where
  "second_task_first = \<lparr>phases = [Done, Done], sem_value = 1, started = [1, 0], completed = [1, 0]\<rparr>"

text \<open>A worker that returns its chunk, and what the specification compares the one-slot
  scheduler with: a serial execution, the workers called one after the other in the order
  of the chunks.\<close>

definition worker_echoes :: "string \<Rightarrow> nat \<Rightarrow> nat \<Rightarrow> string + string" where
  "worker_echoes chunk index total_chunks = Inr chunk"

definition serial_execution :: "'c list \<Rightarrow> ('c \<Rightarrow> nat \<Rightarrow> nat \<Rightarrow> string + 'r) \<Rightarrow> string + 'r list" where
  "serial_execution chunks process_func =
     collect_results (map (\<lambda>i. process_func (chunks ! i) i (length chunks)) [0..<length chunks]) []"

section \<open>LLM structure enhancement (services/llm\_service.py, enhance\_document\_structure)\<close>

text \<open>
  \<open>chunk_elements\<close> works on the dicts of the elements. The page number of an element
  is read from its \<open>grounding\<close>, else from a key \<open>page_number\<close>, else it is \<open>None\<close>.
\<close>

definition element_page :: "json \<Rightarrow> json" where
  "element_page element =
     (case element of
        JDict d \<Rightarrow>
          (case map_of d ''grounding'' of
             Some (JDict g) \<Rightarrow> (case map_of g ''page_number'' of Some v \<Rightarrow> v | None \<Rightarrow> JNull)
           | _ \<Rightarrow> (case map_of d ''page_number'' of Some v \<Rightarrow> v | None \<Rightarrow> JNull))
      | _ \<Rightarrow> JNull)"

text \<open>
  The body of the loop of \<open>chunk_elements\<close> on the state
  \<open>(chunks, current_chunk, current_page)\<close>. The product \<open>max_elements_per_chunk * 0.8\<close>
  is a float in the source; for the limits in use (20) it is exact.
\<close>

definition chunk_step ::
  "int \<Rightarrow> json list list \<times> json list \<times> json \<Rightarrow> json \<Rightarrow> json list list \<times> json list \<times> json" where
  "chunk_step max_elements_per_chunk st element =
     (case st of (chunks, current_chunk, current_page) \<Rightarrow>
        (let page_num = element_page element;
             (chunks1, current1) =
               (if page_num \<noteq> current_page
                   \<and> real (length current_chunk) > real_of_int max_elements_per_chunk * 0.8
                then (chunks @ [current_chunk], [])
                else (chunks, current_chunk));
             current2 = current1 @ [element]
         in if int (length current2) \<ge> max_elements_per_chunk
            then (chunks1 @ [current2], [], page_num)
            else (chunks1, current2, page_num)))"

definition chunk_elements :: "json list \<Rightarrow> int \<Rightarrow> json list list" where
  "chunk_elements elements max_elements_per_chunk =
     (if int (length elements) \<le> max_elements_per_chunk then [elements]
      else
        (case foldl (chunk_step max_elements_per_chunk) ([], [], JNull) elements of
           (chunks, current_chunk, current_page) \<Rightarrow>
             if current_chunk \<noteq> [] then chunks @ [current_chunk] else chunks))"

text \<open>
  What the reasoning service does with one chunk: the call raises, or the content it returns
  is not JSON (\<open>JSONDecodeError\<close>), or it parses.
\<close>

datatype llm_reply = CallFails string | NotJson | Json json

text \<open>
  \<open>process_structure_chunk\<close>: a list is returned as it is, a dict with the key
  \<open>elements\<close> gives the value of that key, and every other reply, as well as a content
  that does not parse, gives the chunk back unchanged. A call that raises makes the worker
  raise.
\<close>

definition process_structure_chunk :: "llm_reply \<Rightarrow> json list \<Rightarrow> string + json" where
  "process_structure_chunk reply element_chunk =
     (case reply of
        CallFails e \<Rightarrow> Inl e
      | NotJson \<Rightarrow> Inr (JList element_chunk)
      | Json (JList l) \<Rightarrow> Inr (JList l)
      | Json (JDict d) \<Rightarrow>
          (case map_of d ''elements'' of
             Some v \<Rightarrow> Inr v
           | None \<Rightarrow> Inr (JList element_chunk))
      | Json _ \<Rightarrow> Inr (JList element_chunk))"

text \<open>"Combine all enhanced chunks": the results that are lists are concatenated.\<close>

definition combine_chunks :: "json list \<Rightarrow> json list" where
  "combine_chunks enhanced_chunks =
     concat (map (\<lambda>chunk. case chunk of JList l \<Rightarrow> l | _ \<Rightarrow> []) enhanced_chunks)"

text \<open>
  \<open>enhance_document_structure\<close>. Without an API key the elements are returned as they
  are. The chunks of at most 20 elements go through the scheduler with one slot; any
  exception, a worker's included, is caught and the elements are returned as they are.
  The function returns for every input: the ceiling is 1.
\<close>

definition enhance_document_structure ::
  "bool \<Rightarrow> (json list \<Rightarrow> nat \<Rightarrow> nat \<Rightarrow> llm_reply) \<Rightarrow> nat list \<Rightarrow> json list \<Rightarrow> json list option" where
  "enhance_document_structure has_api_key llm completion_order elements =
     (if \<not> has_api_key then Some elements
      else
        (case process_chunks_with_rate_limit (chunk_elements elements 20)
                (\<lambda>chunk index total_chunks. process_structure_chunk (llm chunk index total_chunks) chunk)
                1 completion_order of
           None \<Rightarrow> None
         | Some (Inl e) \<Rightarrow> Some elements
         | Some (Inr enhanced_chunks) \<Rightarrow> Some (combine_chunks enhanced_chunks)))"

section \<open>Structuring stage: taking over the enhanced elements\<close>

text \<open>
  \<open>elem.dict()\<close> of an element: the dict that goes to the reasoning service.
\<close>

definition grounding_dict :: "VisualGrounding \<Rightarrow> json" where
  "grounding_dict g =
     JDict [(''page_number'', JInt (page_number g)),
            (''bounding_box'',
               JDict [(''x'', JFloat (box_x (bounding_box g))),
                      (''y'', JFloat (box_y (bounding_box g))),
                      (''width'', JFloat (box_width (bounding_box g))),
                      (''height'', JFloat (box_height (bounding_box g)))]),
            (''confidence'', JFloat (g_confidence g))]"

definition element_dict :: "ExtractedElement \<Rightarrow> json" where
  "element_dict e =
     JDict [(''id'', JStr (elem_id e)),
            (''type'', JStr (elem_type e)),
            (''content'', (case elem_content e of ContentStr s \<Rightarrow> JStr s | ContentDict d \<Rightarrow> JDict d)),
            (''parent_id'', (case parent_id e of None \<Rightarrow> JNull | Some p \<Rightarrow> JStr p)),
            (''children_ids'', JList (map JStr (children_ids e))),
            (''grounding'', grounding_dict (grounding e)),
            (''metadata'', JDict (elem_metadata e)),
            (''confidence'', JFloat (confidence e)),
            (''validated'', JBool (validated e)),
            (''corrections'', (case corrections e of None \<Rightarrow> JNull | Some c \<Rightarrow> JDict c))]"

text \<open>
  The loop that turns the enhanced dicts into elements with \<open>ExtractedElement(**elem)\<close>.
  The constructor is a parameter (\<open>None\<close> where it raises). The first dict it rejects ends
  the loop with an exception, before \<open>state.extracted\_elements\<close> is assigned.
\<close>

fun convert_elements ::
  "(json \<Rightarrow> ExtractedElement option) \<Rightarrow> json list \<Rightarrow> ExtractedElement list option" where
  "convert_elements make_element [] = Some []"
| "convert_elements make_element (elem # rest) =
     (case make_element elem of
        None \<Rightarrow> None
      | Some new_elem \<Rightarrow>
          (case convert_elements make_element rest of
             None \<Rightarrow> None
           | Some new_elements \<Rightarrow> Some (new_elem # new_elements)))"

text \<open>
  The block "Use LLM to enhance document structure" after the call: the elements of the
  state and the lines added to the log.
\<close>

definition apply_enhancement ::
  "(json \<Rightarrow> ExtractedElement option) \<Rightarrow> ExtractedElement list \<Rightarrow> json list
     \<Rightarrow> ExtractedElement list \<times> log_line list" where
  "apply_enhancement make_element built_elements enhanced_elements =
     (if enhanced_elements \<noteq> [] then
        (case convert_elements make_element enhanced_elements of
           None \<Rightarrow> (built_elements, [])
         | Some new_elements \<Rightarrow>
             if new_elements \<noteq> []
             then (new_elements, [EnhancedStructure (length new_elements)])
             else (built_elements, []))
      else (built_elements, []))"

text \<open>
  The structuring step from the raw fragments to the elements it leaves in the state, with
  its log lines: the tree built locally, then the enhancement.
\<close>

definition structure_elements ::
  "(json \<Rightarrow> ExtractedElement option) \<Rightarrow> bool \<Rightarrow> (json list \<Rightarrow> nat \<Rightarrow> nat \<Rightarrow> llm_reply) \<Rightarrow> nat list
     \<Rightarrow> raw_fragment list \<Rightarrow> (ExtractedElement list \<times> log_line list) option" where
  "structure_elements make_element has_api_key llm completion_order raw_elements =
     (let built_elements = build_elements raw_elements;
          element_dicts = map element_dict built_elements
      in case enhance_document_structure has_api_key llm completion_order element_dicts of
           None \<Rightarrow> None
         | Some enhanced_elements \<Rightarrow>
             (case apply_enhancement make_element built_elements enhanced_elements of
                (final_elements, lines) \<Rightarrow>
                  Some (final_elements, StructuredInto (length built_elements) # lines)))"

text \<open>
  The reading of the dicts that \<open>element_dict\<close> writes, as \<open>ExtractedElement(**elem)\<close>
  reads them back (the constructor accepts more than these).
\<close>

definition json_str :: "json \<Rightarrow> string option" where
  "json_str j = (case j of JStr s \<Rightarrow> Some s | _ \<Rightarrow> None)"

definition json_float :: "json \<Rightarrow> real option" where
  "json_float j = (case j of JFloat r \<Rightarrow> Some r | JInt i \<Rightarrow> Some (real_of_int i) | _ \<Rightarrow> None)"

fun json_strs :: "json list \<Rightarrow> string list option" where
  "json_strs [] = Some []"
| "json_strs (j # js) =
     (case json_str j of
        None \<Rightarrow> None
      | Some s \<Rightarrow> (case json_strs js of None \<Rightarrow> None | Some ss \<Rightarrow> Some (s # ss)))"

definition box_of_dict :: "json \<Rightarrow> BoundingBox option" where
  "box_of_dict j =
     (case j of
        JDict d \<Rightarrow>
          (case (Option.bind (map_of d ''x'') json_float, Option.bind (map_of d ''y'') json_float,
                 Option.bind (map_of d ''width'') json_float, Option.bind (map_of d ''height'') json_float) of
             (Some x, Some y, Some w, Some h) \<Rightarrow>
               Some \<lparr>box_x = x, box_y = y, box_width = w, box_height = h\<rparr>
           | _ \<Rightarrow> None)
      | _ \<Rightarrow> None)"

definition grounding_of_dict :: "json \<Rightarrow> VisualGrounding option" where
  "grounding_of_dict j =
     (case j of
        JDict d \<Rightarrow>
          (case (map_of d ''page_number'', Option.bind (map_of d ''bounding_box'') box_of_dict,
                 Option.bind (map_of d ''confidence'') json_float) of
             (Some (JInt p), Some b, Some c) \<Rightarrow>
               Some \<lparr>page_number = p, bounding_box = b, g_confidence = c\<rparr>
           | _ \<Rightarrow> None)
      | _ \<Rightarrow> None)"

definition element_of_dict :: "json \<Rightarrow> ExtractedElement option" where
  "element_of_dict j =
     (case j of
        JDict d \<Rightarrow>
          (case (Option.bind (map_of d ''id'') json_str, Option.bind (map_of d ''type'') json_str,
                 map_of d ''content'', map_of d ''parent_id'', map_of d ''children_ids'',
                 Option.bind (map_of d ''grounding'') grounding_of_dict, map_of d ''metadata'',
                 Option.bind (map_of d ''confidence'') json_float, map_of d ''validated'',
                 map_of d ''corrections'') of
             (Some i, Some t, Some c, Some p, Some (JList ch), Some g, Some (JDict m), Some cf,
              Some (JBool v), Some co) \<Rightarrow>
               (case (case c of JStr s \<Rightarrow> Some (ContentStr s) | JDict cd \<Rightarrow> Some (ContentDict cd)
                              | _ \<Rightarrow> None,
                      case p of JNull \<Rightarrow> Some None | JStr s \<Rightarrow> Some (Some s) | _ \<Rightarrow> None,
                      json_strs ch,
                      case co of JNull \<Rightarrow> Some None | JDict cd \<Rightarrow> Some (Some cd) | _ \<Rightarrow> None) of
                  (Some c', Some p', Some ch', Some co') \<Rightarrow>
                    Some \<lparr>elem_id = i, elem_type = t, elem_content = c', parent_id = p',
                          children_ids = ch', grounding = g, elem_metadata = m, confidence = cf,
                          validated = v, corrections = co'\<rparr>
                | _ \<Rightarrow> None)
           | _ \<Rightarrow> None)
      | _ \<Rightarrow> None)"

text \<open>A reply that makes \<open>process_structure_chunk\<close> give the chunk back as it was.\<close>

definition passes_through :: "llm_reply \<Rightarrow> bool" where
  "passes_through reply =
     (case reply of
        CallFails e \<Rightarrow> False
      | NotJson \<Rightarrow> True
      | Json (JList l) \<Rightarrow> False
      | Json (JDict d) \<Rightarrow> map_of d ''elements'' = None
      | Json _ \<Rightarrow> True)"

text \<open>A service whose content never parses, and twenty text fragments on one page: with
  the page element, 21 elements and so two chunks.\<close>

definition never_json :: "json list \<Rightarrow> nat \<Rightarrow> nat \<Rightarrow> llm_reply" where
  "never_json chunk index total_chunks = NotJson"

definition twenty_texts :: "raw_fragment list" where
  "twenty_texts = replicate 20 (text_fragment None ''a'')"

section \<open>The pipeline up to the parsing stage (agents/simple\_workflow.py)\<close>

text \<open>
  \<open>DocumentProcessingState\<close>, the object the stages pass on. Its fields carry the prefix
  \<open>s_\<close> to keep them apart from those of \<open>ProcessingResult\<close>.
\<close>

record DocumentProcessingState =
  s_transaction_id :: string
  s_file_path :: string
  s_filename :: string
  s_raw_text :: string
  s_raw_elements :: "raw_fragment list"
  s_extracted_elements :: "ExtractedElement list"
  s_structured_data :: "structured_summary option"
  s_metadata :: "DocumentMetadata option"
  s_status :: ProcessingStatus
  s_error_message :: "string option"
  s_processing_log :: "log_line list"
  s_confidence_threshold :: real

definition new_state :: DocumentProcessingState where
  "new_state =
     \<lparr>s_transaction_id = [], s_file_path = [], s_filename = [], s_raw_text = [],
      s_raw_elements = [], s_extracted_elements = [], s_structured_data = None,
      s_metadata = None, s_status = PENDING, s_error_message = None, s_processing_log = [],
      s_confidence_threshold = 0.7\<rparr>"

text \<open>\<open>filename.lower().endswith(suffix)\<close> for an ASCII suffix.\<close>

definition lower_char :: "char \<Rightarrow> char" where
  "lower_char c =
     (if 65 \<le> (of_char c :: nat) \<and> (of_char c :: nat) \<le> 90 then char_of (of_char c + 32 :: nat) else c)"

definition lower_endswith :: "string \<Rightarrow> string \<Rightarrow> bool" where
  "lower_endswith name ending = suffix ending (map lower_char name)"

definition initial_document_type :: "string \<Rightarrow> DocumentType" where
  "initial_document_type name =
     (if lower_endswith name ''.pdf'' then PDF
      else if lower_endswith name ''.png'' then PNG
      else JPEG)"

text \<open>
  \<open>_parse_step\<close>. \<open>extraction\<close> is what \<open>processor.process_document\<close> does: it
  returns the text, the raw fragments and the metadata, or it raises (\<open>Inl\<close> with the
  message \<open>str(e)\<close>). \<open>clock\<close> gives the clock reading and \<open>disk_ok\<close> says whether the
  file can be written, at the moment the store is written for a status.
\<close>

definition parse_step ::
  "string + string \<times> raw_fragment list \<times> DocumentMetadata \<Rightarrow> (ProcessingStatus \<Rightarrow> timestamp)
     \<Rightarrow> (ProcessingStatus \<Rightarrow> bool) \<Rightarrow> DocumentProcessingState \<Rightarrow> storage
     \<Rightarrow> DocumentProcessingState \<times> storage" where
  "parse_step extraction clock disk_ok state st =
     (let state1 = state\<lparr>s_status := PARSING,
                          s_processing_log := s_processing_log state @ [StartedParsing (clock PARSING)]\<rparr>;
          st1 = snd (update_status (s_transaction_id state1) PARSING None (clock PARSING)
                       (disk_ok PARSING) st)
      in case extraction of
           Inr (text_read, raw_elements, document_metadata) \<Rightarrow>
             (state1\<lparr>s_raw_text := text_read, s_raw_elements := raw_elements,
                     s_metadata := Some document_metadata,
                     s_processing_log :=
                       s_processing_log state1 @ [ParsedElements (length raw_elements)]\<rparr>,
              st1)
         | Inl e \<Rightarrow>
             (state1\<lparr>s_error_message := Some e, s_status := FAILED\<rparr>,
              snd (update_status (s_transaction_id state1) FAILED (Some e) (clock FAILED)
                     (disk_ok FAILED) st1)))"

text \<open>
  \<open>process_document\<close>: the initial result is stored, the parsing step runs, and when it
  has failed the function returns the transaction id at once. \<open>later_stages\<close> stands for
  the rest of the function, the structuring, validation, highlighting and storing steps
  with their own early returns; it runs only when parsing has not failed.
  \<open>getsize\<close> is what \<open>os.path.getsize\<close> does: when it raises (\<open>Inl\<close>), the
  exception is raised again and nothing has been stored. The result is the exception that
  leaves the function or the transaction id, and the store.
\<close>

definition process_document ::
  "string \<Rightarrow> string \<Rightarrow> string \<Rightarrow> string + nat \<Rightarrow> (ProcessingStatus \<Rightarrow> timestamp)
     \<Rightarrow> (ProcessingStatus \<Rightarrow> bool) \<Rightarrow> string + string \<times> raw_fragment list \<times> DocumentMetadata
     \<Rightarrow> (DocumentProcessingState \<Rightarrow> storage \<Rightarrow> (string + string) \<times> storage)
     \<Rightarrow> storage \<Rightarrow> (string + string) \<times> storage" where
  "process_document tid file_path name getsize clock disk_ok extraction later_stages st =
     (case getsize of
        Inl e \<Rightarrow> (Inl e, st)
      | Inr size_read \<Rightarrow>
          (let state = new_state\<lparr>s_transaction_id := tid, s_file_path := file_path,
                                  s_filename := name\<rparr>;
               initial_metadata =
                 \<lparr>filename = name, file_size = size_read,
                  document_type = initial_document_type name, page_count = 1,
                  upload_timestamp = clock PENDING, ocr_languages = [''en''],
                  ocr_models_used = [''tesseract'']\<rparr>;
               initial_result =
                 \<lparr>transaction_id = tid, status = PENDING, metadata = initial_metadata,
                  extracted_elements = [], raw_text = None, structured_data = None,
                  error_message = None, processing_log = [StartedProcessing (clock PENDING)],
                  created_at = clock PENDING, updated_at = clock PENDING\<rparr>;
               st1 = snd (store_result initial_result (disk_ok PENDING) st)
           in case parse_step extraction clock disk_ok state st1 of
                (state1, st2) \<Rightarrow>
                  if s_status state1 = FAILED then (Inr tid, st2) else later_stages state1 st2))"

text \<open>The log lines of the structuring stage.\<close>

definition is_structuring_line :: "log_line \<Rightarrow> bool" where
  "is_structuring_line l =
     (case l of
        StartedStructuring t \<Rightarrow> True
      | StructuredInto n \<Rightarrow> True
      | EnhancedStructure n \<Rightarrow> True
      | _ \<Rightarrow> False)"

text \<open>A run to try the failure on: the extractor raises "corrupt file" on \<open>scan.pdf\<close>,
  the store is empty and every write succeeds. The later stages, which do not run, are
  given as a function that stores nothing.\<close>

definition no_later_stages :: "DocumentProcessingState \<Rightarrow> storage \<Rightarrow> (string + string) \<times> storage" where
  "no_later_stages state st = (Inr (s_transaction_id state), st)"

definition empty_storage :: storage where
  "empty_storage = \<lparr>results = Map.empty, files = Map.empty\<rparr>"

definition clock_reading :: "ProcessingStatus \<Rightarrow> timestamp" where
  "clock_reading s = (case s of PENDING \<Rightarrow> 100 | PARSING \<Rightarrow> 101 | FAILED \<Rightarrow> 102 | _ \<Rightarrow> 103)"

definition writes_succeed :: "ProcessingStatus \<Rightarrow> bool" where
  "writes_succeed s = True"

section \<open>The store refuses unknown transactions\<close>

text \<open>
  C10. For a transaction id that has no result in memory and no file on disk,
  \<open>update_status\<close> returns \<open>False\<close> and the store is the one it was given: no snapshot
  is created for the unknown id.
\<close>

theorem update_status_unknown_id:
  assumes "results st tid = None" and "files st tid = None"
  shows "update_status tid new_status message now disk_ok st = (False, st)"
  using assms by (simp add: update_status_def get_result_def)

theorem update_status_unknown_id_witness:
  "results \<lparr>results = Map.empty, files = Map.empty\<rparr> ''t1'' = None
   \<and> files \<lparr>results = Map.empty, files = Map.empty\<rparr> ''t1'' = None
   \<and> update_status ''t1'' FAILED (Some ''boom'') 5 True \<lparr>results = Map.empty, files = Map.empty\<rparr>
       = (False, \<lparr>results = Map.empty, files = Map.empty\<rparr>)"
  using update_status_unknown_id
    [of "\<lparr>results = Map.empty, files = Map.empty\<rparr>" "''t1''" FAILED "Some ''boom''" 5 True]
  by simp

section \<open>Merge rules\<close>

lemma map_of_dict_set: "map_of (dict_set k v d) = (map_of d)(k \<mapsto> v)"
  by (induction d) (auto simp: fun_eq_iff)

lemma map_of_dict_update: "map_of (dict_update a b) = map_of a ++ map_of (rev b)"
  unfolding dict_update_def
  by (induction b arbitrary: a)
     (auto simp: map_of_dict_set fun_eq_iff map_add_def split: option.splits)

lemma map_of_rev_distinct: "distinct (map fst b) \<Longrightarrow> map_of (rev b) = map_of b"
proof (induction b)
  case Nil then show ?case by simp
next
  case (Cons a b)
  then have "fst a \<notin> dom (map_of b)" by (auto simp: dom_map_of_conv_image_fst)
  then have "map_of b (fst a) = None" by blast
  with Cons show ?case
    by (cases a) (auto simp: fun_eq_iff map_add_def split: option.splits)
qed

lemma map_of_merge_item:
  "map_of (merge_item m (k, v)) = (map_of m)(k \<mapsto> merged_value (map_of m k) v)"
proof (cases "map_of m k")
  case None
  then show ?thesis by (simp add: merge_item_def map_of_dict_set)
next
  case (Some old)
  then have same: "(map_of m)(k \<mapsto> old) = map_of m" by (simp add: fun_eq_iff)
  show ?thesis
  proof (cases old)
    case (JList a)
    with Some same show ?thesis
      by (cases v) (simp_all add: merge_item_def map_of_dict_set)
  next
    case (JDict a)
    with Some same show ?thesis
      by (cases v) (simp_all add: merge_item_def map_of_dict_set)
  next
    case JNull
    with Some same show ?thesis
      by (simp add: merge_item_def map_of_dict_set)
  next
    case (JStr s)
    with Some same show ?thesis
      by (simp add: merge_item_def map_of_dict_set)
  next
    case (JBool b)
    with Some same show ?thesis
      by (simp add: merge_item_def map_of_dict_set)
  next
    case (JInt i)
    with Some same show ?thesis
      by (simp add: merge_item_def map_of_dict_set)
  next
    case (JFloat r)
    with Some same show ?thesis
      by (simp add: merge_item_def map_of_dict_set)
  qed
qed

lemma merge_result_other: "k \<notin> fst ` set p \<Longrightarrow> map_of (merge_result m p) k = map_of m k"
  unfolding merge_result_def
proof (induction p arbitrary: m)
  case Nil then show ?case by simp
next
  case (Cons a p)
  obtain k' v' where a: "a = (k', v')" by (cases a)
  with Cons.prems have "k \<noteq> k'" "k \<notin> fst ` set p" by auto
  with Cons.IH[of "merge_item m a"] a show ?case by (simp add: map_of_merge_item)
qed

lemma merge_result_at:
  assumes "distinct (map fst p)" "(k, v) \<in> set p"
  shows "map_of (merge_result m p) k = Some (merged_value (map_of m k) v)"
  using assms unfolding merge_result_def
proof (induction p arbitrary: m)
  case Nil then show ?case by simp
next
  case (Cons a p)
  obtain k' v' where a: "a = (k', v')" by (cases a)
  show ?case
  proof (cases "a = (k, v)")
    case True
    with Cons.prems have "k \<notin> fst ` set p" by force
    then have "map_of (merge_result (merge_item m a) p) k = map_of (merge_item m a) k"
      by (rule merge_result_other)
    with True show ?thesis by (simp add: merge_result_def map_of_merge_item)
  next
    case False
    with Cons.prems have kp: "(k, v) \<in> set p" and d: "distinct (map fst p)"
      by auto
    from kp have "k \<in> fst ` set p" by force
    moreover from Cons.prems(1) have "fst a \<notin> fst ` set p" by simp
    ultimately have ne: "k \<noteq> k'" using a by auto
    have "map_of (foldl merge_item (merge_item m a) p) k
          = Some (merged_value (map_of (merge_item m a) k) v)"
      using Cons.IH[OF d kp] .
    also have "map_of (merge_item m a) k = map_of m k"
      using ne a by (simp add: map_of_merge_item)
    finally show ?thesis by simp
  qed
qed

text \<open>
  C5, as the code has it. \<open>_merge_extraction_results\<close> returns a single result as it is
  and folds the later results into the first one from left to right. For a later result
  \<open>p\<close> (a dict, so its keys are distinct) and each of its items \<open>(k, v)\<close>: a key absent
  from the accumulator is added; two lists are concatenated; two dicts are merged, the
  later value winning per key; an accumulator value that is \<open>None\<close> or the empty string
  is overwritten, and no other value is: in every other case, that of an empty list or an
  empty dict included, the accumulator's value is kept. Keys that \<open>p\<close> does not have are
  untouched. The three examples of the specification evaluate as it says.
\<close>

theorem merge_extraction_rules:
  assumes "distinct (map fst p)" and "(k, v) \<in> set p"
  shows "merge_extraction_results [acc] schema = acc
    \<and> merge_extraction_results (acc # p # rest) schema
        = merge_extraction_results (merge_result acc p # rest) schema
    \<and> (map_of acc k = None \<longrightarrow> map_of (merge_extraction_results [acc, p] schema) k = Some v)
    \<and> (\<forall>a b. map_of acc k = Some (JList a) \<and> v = JList b \<longrightarrow>
          map_of (merge_extraction_results [acc, p] schema) k = Some (JList (a @ b)))
    \<and> (\<forall>a b. map_of acc k = Some (JDict a) \<and> v = JDict b \<and> distinct (map fst b) \<longrightarrow>
          (\<exists>d. map_of (merge_extraction_results [acc, p] schema) k = Some (JDict d)
             \<and> map_of d = map_of a ++ map_of b))
    \<and> (\<forall>old. map_of acc k = Some old \<and> (old = JNull \<or> old = JStr []) \<longrightarrow>
          map_of (merge_extraction_results [acc, p] schema) k = Some v)
    \<and> (\<forall>old. map_of acc k = Some old \<and> old \<noteq> JNull \<and> old \<noteq> JStr []
           \<and> \<not> (isinstance_list old \<and> isinstance_list v)
           \<and> \<not> (isinstance_dict old \<and> isinstance_dict v) \<longrightarrow>
          map_of (merge_extraction_results [acc, p] schema) k = Some old)
    \<and> (\<forall>k'. k' \<notin> fst ` set p \<longrightarrow>
          map_of (merge_extraction_results [acc, p] schema) k' = map_of acc k')
    \<and> merge_extraction_results [[(''a'', JInt 1)]] schema = [(''a'', JInt 1)]
    \<and> merge_extraction_results [[(''a'', JList [JInt 1])], [(''a'', JList [JInt 2])]] schema
        = [(''a'', JList [JInt 1, JInt 2])]
    \<and> merge_extraction_results [[(''a'', JNull)], [(''a'', JInt 5)]] schema = [(''a'', JInt 5)]"
proof -
  have two: "merge_extraction_results [acc, p] schema = merge_result acc p"
    by (simp add: merge_extraction_results_def)
  have at: "map_of (merge_result acc p) k = Some (merged_value (map_of acc k) v)"
    using assms by (rule merge_result_at)
  have c1: "merge_extraction_results [acc] schema = acc"
    by (simp add: merge_extraction_results_def)
  have c2: "merge_extraction_results (acc # p # rest) schema
        = merge_extraction_results (merge_result acc p # rest) schema"
    by (simp add: merge_extraction_results_def)
  have c3: "map_of acc k = None \<longrightarrow> map_of (merge_extraction_results [acc, p] schema) k = Some v"
    by (simp add: two at)
  have c4: "\<forall>a b. map_of acc k = Some (JList a) \<and> v = JList b \<longrightarrow>
          map_of (merge_extraction_results [acc, p] schema) k = Some (JList (a @ b))"
    by (simp add: two at)
  have c5: "\<forall>a b. map_of acc k = Some (JDict a) \<and> v = JDict b \<and> distinct (map fst b) \<longrightarrow>
          (\<exists>d. map_of (merge_extraction_results [acc, p] schema) k = Some (JDict d)
             \<and> map_of d = map_of a ++ map_of b)"
    by (simp add: two at map_of_dict_update map_of_rev_distinct)
  have c6: "\<forall>old. map_of acc k = Some old \<and> (old = JNull \<or> old = JStr []) \<longrightarrow>
          map_of (merge_extraction_results [acc, p] schema) k = Some v"
    by (auto simp: two at)
  have c7: "\<forall>old. map_of acc k = Some old \<and> old \<noteq> JNull \<and> old \<noteq> JStr []
           \<and> \<not> (isinstance_list old \<and> isinstance_list v)
           \<and> \<not> (isinstance_dict old \<and> isinstance_dict v) \<longrightarrow>
          map_of (merge_extraction_results [acc, p] schema) k = Some old"
  proof (intro allI impI)
    fix old
    assume h: "map_of acc k = Some old \<and> old \<noteq> JNull \<and> old \<noteq> JStr []
           \<and> \<not> (isinstance_list old \<and> isinstance_list v)
           \<and> \<not> (isinstance_dict old \<and> isinstance_dict v)"
    then have "merged_value (Some old) v = old"
      by (cases old; cases v) (simp_all add: isinstance_list_def isinstance_dict_def)
    with h show "map_of (merge_extraction_results [acc, p] schema) k = Some old"
      by (simp add: two at)
  qed
  have c8: "\<forall>k'. k' \<notin> fst ` set p \<longrightarrow>
          map_of (merge_extraction_results [acc, p] schema) k' = map_of acc k'"
    by (simp add: two merge_result_other)
  have e1: "merge_extraction_results [[(''a'', JInt 1)]] schema = [(''a'', JInt 1)]"
    by (simp add: merge_extraction_results_def)
  have e2: "merge_extraction_results [[(''a'', JList [JInt 1])], [(''a'', JList [JInt 2])]] schema
        = [(''a'', JList [JInt 1, JInt 2])]"
    by (simp add: merge_extraction_results_def merge_result_def merge_item_def)
  have e3: "merge_extraction_results [[(''a'', JNull)], [(''a'', JInt 5)]] schema = [(''a'', JInt 5)]"
    by (simp add: merge_extraction_results_def merge_result_def merge_item_def)
  from c1 c2 c3 c4 c5 c6 c7 c8 e1 e2 e3 show ?thesis by blast
qed

theorem merge_extraction_rules_witness:
  "distinct (map fst [(''a'', JInt 5), (''b'', JList [JInt 2])])
   \<and> (''b'', JList [JInt 2]) \<in> set [(''a'', JInt 5), (''b'', JList [JInt 2])]
   \<and> map_of [(''a'', JNull), (''b'', JList [JInt 1])] ''b'' = Some (JList [JInt 1])
   \<and> map_of (merge_extraction_results
               [[(''a'', JNull), (''b'', JList [JInt 1])], [(''a'', JInt 5), (''b'', JList [JInt 2])]] [])
        ''b'' = Some (JList ([JInt 1] @ [JInt 2]))"
proof -
  have d: "distinct (map fst [(''a'', JInt 5), (''b'', JList [JInt 2])])" by simp
  have m: "(''b'', JList [JInt 2]) \<in> set [(''a'', JInt 5), (''b'', JList [JInt 2])]" by simp
  have l: "map_of [(''a'', JNull), (''b'', JList [JInt 1])] ''b'' = Some (JList [JInt 1])" by simp
  from merge_extraction_rules [OF d m, of "[(''a'', JNull), (''b'', JList [JInt 1])]" "[]"] l
  have "map_of (merge_extraction_results
               [[(''a'', JNull), (''b'', JList [JInt 1])], [(''a'', JInt 5), (''b'', JList [JInt 2])]] [])
        ''b'' = Some (JList ([JInt 1] @ [JInt 2]))"
    by blast
  with d m l show ?thesis by blast
qed

text \<open>
  The claim as stated fails for an accumulator value that is empty without being \<open>None\<close>
  or the empty string: an empty list, or an empty dict, is kept when the later value is a
  number.
\<close>

theorem merge_empty_list_counterexample:
  "merge_extraction_results [[(''a'', JList [])], [(''a'', JInt 5)]] [] = [(''a'', JList [])]
   \<and> merge_extraction_results [[(''a'', JDict [])], [(''a'', JInt 5)]] [] = [(''a'', JDict [])]
   \<and> merge_extraction_results [[(''a'', JList [])], [(''a'', JInt 5)]] [] \<noteq> [(''a'', JInt 5)]"
  by (simp add: merge_extraction_results_def merge_result_def merge_item_def)


section \<open>Base rules of the validation stage\<close>

lemma strip_empty_iff: "strip s = [] \<longleftrightarrow> (\<forall>c \<in> set s. isspace c)"
proof
  assume "strip s = []"
  then have "dropWhile isspace (rev (dropWhile isspace s)) = []" by (simp add: strip_def)
  with dropWhile_eq_Nil_conv [of isspace "rev (dropWhile isspace s)"]
  have "\<forall>c \<in> set (dropWhile isspace s). isspace c"
    by simp
  moreover have "\<forall>c \<in> set (takeWhile isspace s). isspace c"
    by (auto dest: set_takeWhileD)
  moreover have "set s = set (takeWhile isspace s) \<union> set (dropWhile isspace s)"
    by (metis set_append takeWhile_dropWhile_id)
  ultimately show "\<forall>c \<in> set s. isspace c" by blast
next
  assume "\<forall>c \<in> set s. isspace c"
  with dropWhile_eq_Nil_conv [of isspace s] have "dropWhile isspace s = []" by blast
  then show "strip s = []" by (simp add: strip_def del: dropWhile_eq_Nil_conv)
qed

text \<open>
  C6. The loop "Basic validation for all elements" runs before the LLM is asked, and does
  to the element at every position what the base rules say: a text element whose content
  is only white space gets confidence 0.3, and is not validated at the threshold 0.7; a
  text element with other characters gets \<open>max(current, 0.8)\<close>; a table element whose
  content has a non-empty list of rows gets \<open>max(current, 0.9)\<close>, and is validated at
  the threshold 0.7; a page element gets 1.0; and \<open>validated\<close> is
  \<open>confidence \<ge> threshold\<close> for every element.
\<close>

theorem validate_base_rules:
  assumes "i < length elements"
  shows "(let e = elements ! i; e' = basic_validation thr elements ! i in
     (\<forall>s. elem_type e = ''text'' \<and> elem_content e = ContentStr s \<and> (\<forall>c \<in> set s. isspace c) \<longrightarrow>
         confidence e' = 0.3 \<and> (thr = 0.7 \<longrightarrow> \<not> validated e'))
   \<and> (\<forall>s. elem_type e = ''text'' \<and> elem_content e = ContentStr s \<and> (\<exists>c \<in> set s. \<not> isspace c) \<longrightarrow>
         confidence e' = max (confidence e) 0.8)
   \<and> (\<forall>d rows. elem_type e = ''table'' \<and> elem_content e = ContentDict d
          \<and> map_of d ''rows'' = Some (JList rows) \<and> rows \<noteq> [] \<longrightarrow>
         confidence e' = max (confidence e) 0.9 \<and> (thr = 0.7 \<longrightarrow> validated e'))
   \<and> (elem_type e = ''page'' \<longrightarrow> confidence e' = 1)
   \<and> validated e' = (confidence e' \<ge> thr))"
proof -
  define e where "e = elements ! i"
  define e' where "e' = validate_element thr e"
  have nth: "basic_validation thr elements ! i = e'"
    using assms by (simp add: basic_validation_def e'_def e_def)
  have r1: "\<forall>s. elem_type e = ''text'' \<and> elem_content e = ContentStr s \<and> (\<forall>c \<in> set s. isspace c) \<longrightarrow>
         confidence e' = 0.3 \<and> (thr = 0.7 \<longrightarrow> \<not> validated e')"
    by (auto simp: e'_def validate_element_def strip_empty_iff [symmetric])
  have r2: "\<forall>s. elem_type e = ''text'' \<and> elem_content e = ContentStr s \<and> (\<exists>c \<in> set s. \<not> isspace c) \<longrightarrow>
         confidence e' = max (confidence e) 0.8"
  proof (intro allI impI)
    fix s
    assume h: "elem_type e = ''text'' \<and> elem_content e = ContentStr s \<and> (\<exists>c \<in> set s. \<not> isspace c)"
    then have "strip s \<noteq> []" by (simp add: strip_empty_iff)
    with h show "confidence e' = max (confidence e) 0.8"
      by (simp add: e'_def validate_element_def)
  qed
  have r3: "\<forall>d rows. elem_type e = ''table'' \<and> elem_content e = ContentDict d
          \<and> map_of d ''rows'' = Some (JList rows) \<and> rows \<noteq> [] \<longrightarrow>
         confidence e' = max (confidence e) 0.9 \<and> (thr = 0.7 \<longrightarrow> validated e')"
    by (auto simp: e'_def validate_element_def)
  have r4: "elem_type e = ''page'' \<longrightarrow> confidence e' = 1"
    by (simp add: e'_def validate_element_def)
  have r5: "validated e' = (confidence e' \<ge> thr)"
    by (simp add: e'_def validate_element_def Let_def)
  from r1 r2 r3 r4 r5 show ?thesis
    unfolding Let_def nth e_def [symmetric] by blast
qed

theorem validate_base_rules_witness:
  "(1::nat) < length [blank_text_element, one_row_table_element]
   \<and> confidence (basic_validation 0.7 [blank_text_element, one_row_table_element] ! 0) = 0.3
   \<and> \<not> validated (basic_validation 0.7 [blank_text_element, one_row_table_element] ! 0)
   \<and> confidence (basic_validation 0.7 [blank_text_element, one_row_table_element] ! 1) = 0.9
   \<and> validated (basic_validation 0.7 [blank_text_element, one_row_table_element] ! 1)"
proof -
  let ?es = "[blank_text_element, one_row_table_element]"
  have l0: "0 < length ?es" and l1: "1 < length ?es" by simp_all
  have t: "elem_type (?es ! 0) = ''text'' \<and> elem_content (?es ! 0) = ContentStr ''  ''
           \<and> (\<forall>c \<in> set ''  ''. isspace c)"
    by (simp add: blank_text_element_def isspace_def)
  have b: "elem_type (?es ! 1) = ''table''
           \<and> elem_content (?es ! 1)
              = ContentDict [(''rows'', JList [JList [JStr ''h'']]), (''table_id'', JStr ''table_1_0'')]
           \<and> map_of [(''rows'', JList [JList [JStr ''h'']]), (''table_id'', JStr ''table_1_0'')] ''rows''
              = Some (JList [JList [JStr ''h'']])
           \<and> [JList [JStr ''h'']] \<noteq> []
           \<and> confidence (?es ! 1) = 0.9"
    by (simp add: one_row_table_element_def)
  from validate_base_rules [OF l0, of "0.7"] t
  have r0: "confidence (basic_validation 0.7 ?es ! 0) = 0.3
            \<and> \<not> validated (basic_validation 0.7 ?es ! 0)"
    unfolding Let_def by blast
  from validate_base_rules [OF l1, of "0.7"] b
  have r1: "confidence (basic_validation 0.7 ?es ! 1) = max 0.9 0.9
            \<and> validated (basic_validation 0.7 ?es ! 1)"
    unfolding Let_def by metis
  from l1 r0 r1 show ?thesis by simp
qed

section \<open>The element tree\<close>

lemma map_of_pages_add:
  "map_of (pages_add p e ps)
     = (map_of ps)(p \<mapsto> file_fragment e (case map_of ps p of None \<Rightarrow> empty_groups | Some g \<Rightarrow> g))"
  by (induction ps) (auto simp: fun_eq_iff empty_groups_def)

lemma pages_add_keys: "fst ` set (pages_add p e ps) = insert p (fst ` set ps)"
proof -
  have "dom (map_of (pages_add p e ps)) = insert p (dom (map_of ps))"
    by (simp add: map_of_pages_add)
  then show ?thesis by (simp add: dom_map_of_conv_image_fst)
qed

lemma pages_add_distinct: "distinct (map fst ps) \<Longrightarrow> distinct (map fst (pages_add p e ps))"
proof (induction ps)
  case Nil then show ?case by simp
next
  case (Cons a ps)
  obtain q g where a: "a = (q, g)" by (cases a)
  from Cons.prems a have q: "q \<notin> fst ` set ps" and d: "distinct (map fst ps)" by auto
  show ?case
  proof (cases "q = p")
    case True
    with a q d show ?thesis by simp
  next
    case False
    from q False have "q \<notin> fst ` set (pages_add p e ps)" by (simp add: pages_add_keys)
    with a False Cons.IH[OF d] show ?thesis by simp
  qed
qed

lemma group_keys: "fst ` set (group_by_page raws) = page_of ` set raws"
  unfolding group_by_page_def
  by (induction raws rule: rev_induct) (simp_all add: pages_add_keys)

lemma group_distinct: "distinct (map fst (group_by_page raws))"
  unfolding group_by_page_def
  by (induction raws rule: rev_induct) (simp_all add: pages_add_distinct)

lemma file_fragment_tables_mono: "set (pg_tables g) \<subseteq> set (pg_tables (file_fragment e g))"
  by (auto simp: file_fragment_def)

lemma file_fragment_table_new:
  "frag_type e = Some ''table'' \<Longrightarrow> e \<in> set (pg_tables (file_fragment e g))"
  by (simp add: file_fragment_def)

lemma group_has_table:
  "f \<in> set raws \<Longrightarrow> frag_type f = Some ''table'' \<Longrightarrow>
     \<exists>g. map_of (group_by_page raws) (page_of f) = Some g \<and> f \<in> set (pg_tables g)"
  unfolding group_by_page_def
proof (induction raws rule: rev_induct)
  case Nil then show ?case by simp
next
  case (snoc e raws)
  let ?ps = "foldl (\<lambda>acc element. pages_add (page_of element) element acc) [] raws"
  show ?case
  proof (cases "f = e")
    case True
    with snoc.prems(2) show ?thesis
      by (simp add: map_of_pages_add file_fragment_table_new)
  next
    case False
    with snoc.prems have "f \<in> set raws" by simp
    from snoc.IH[OF this snoc.prems(2)] obtain g where
      g: "map_of ?ps (page_of f) = Some g" and f: "f \<in> set (pg_tables g)" by blast
    show ?thesis
    proof (cases "page_of f = page_of e")
      case True
      from f have "f \<in> set (pg_tables (file_fragment e g))"
        using file_fragment_tables_mono by blast
      with True g show ?thesis by (simp add: map_of_pages_add)
    next
      case False
      with g f show ?thesis by (simp add: map_of_pages_add)
    qed
  qed
qed

lemma in_enumerate_nth: "x \<in> set xs \<Longrightarrow> \<exists>i. (i, x) \<in> set (enumerate 0 xs)"
proof -
  assume "x \<in> set xs"
  then obtain i where "i < length xs" "xs ! i = x" by (auto simp: in_set_conv_nth)
  then have "(i, x) \<in> set (enumerate 0 xs)" by (simp add: in_set_enumerate_eq)
  then show ?thesis ..
qed

lemma structure_page_eq:
  "structure_page (p, g)
     = page_element p (map elem_id (page_texts p g) @ map elem_id (page_tables p g))
       # page_texts p g @ page_tables p g"
  by (simp add: structure_page_def)

lemma structure_page_split:
  "e \<in> set (structure_page (p, g)) \<longleftrightarrow>
     e = page_element p (map elem_id (page_texts p g) @ map elem_id (page_tables p g))
     \<or> e \<in> set (page_texts p g) \<or> e \<in> set (page_tables p g)"
  by (simp add: structure_page_eq)

lemma page_texts_props:
  "d \<in> set (page_texts p g) \<Longrightarrow> elem_type d = ''text'' \<and> parent_id d = Some (''page_'' @ str_int p)"
  by (auto simp: page_texts_def text_element_def)

lemma page_tables_props:
  "d \<in> set (page_tables p g) \<Longrightarrow> elem_type d = ''table'' \<and> parent_id d = Some (''page_'' @ str_int p)"
  by (auto simp: page_tables_def table_element_def)

lemma page_element_props:
  "elem_type (page_element p cs) = ''page'' \<and> elem_id (page_element p cs) = ''page_'' @ str_int p
   \<and> page_number (grounding (page_element p cs)) = p \<and> children_ids (page_element p cs) = cs
   \<and> bounding_box (grounding (page_element p cs))
       = \<lparr>box_x = 0, box_y = 0, box_width = 1, box_height = 1\<rparr>
   \<and> g_confidence (grounding (page_element p cs)) = 1
   \<and> confidence (page_element p cs) = 1"
  by (simp add: page_element_def)

lemma table_in_structure_page:
  assumes "f \<in> set (pg_tables g)"
  shows "\<exists>i. table_element p i f \<in> set (structure_page (p, g))"
proof -
  from in_enumerate_nth [OF assms] obtain i where "(i, f) \<in> set (enumerate 0 (pg_tables g))" ..
  then have "(\<lambda>(i, table_elem). table_element p i table_elem) (i, f)
      \<in> (\<lambda>(i, table_elem). table_element p i table_elem) ` set (enumerate 0 (pg_tables g))"
    by (rule imageI)
  then have "table_element p i f \<in> set (page_tables p g)"
    unfolding page_tables_def set_map by simp
  then have "table_element p i f \<in> set (structure_page (p, g))"
    unfolding structure_page_split by blast
  then show ?thesis ..
qed

lemma table_in_build:
  assumes "f \<in> set raws" "frag_type f = Some ''table''"
  shows "\<exists>i. table_element (page_of f) i f \<in> set (build_elements raws)"
proof -
  from group_has_table[OF assms] obtain g where
    g: "map_of (group_by_page raws) (page_of f) = Some g" and f: "f \<in> set (pg_tables g)" by blast
  from g have g': "(page_of f, g) \<in> set (group_by_page raws)" by (rule map_of_SomeD)
  from table_in_structure_page[OF f] obtain i where
    "table_element (page_of f) i f \<in> set (structure_page (page_of f, g))" by blast
  with g' have "table_element (page_of f) i f \<in> set (build_elements raws)"
    unfolding build_elements_def by force
  then show ?thesis ..
qed

lemma table_element_defaults:
  "frag_bbox f = None \<Longrightarrow>
     bounding_box (grounding (table_element p i f))
       = \<lparr>box_x = 0, box_y = 0, box_width = 0.8, box_height = 0.3\<rparr>
     \<and> g_confidence (grounding (table_element p i f)) = 0.9
     \<and> confidence (table_element p i f) = 0.9"
  by (simp add: table_element_def bbox_get_def)

lemma texts_not_page: "d \<in> set (page_texts p g) \<Longrightarrow> elem_type d \<noteq> ''page''"
  by (auto simp: page_texts_def text_element_def)

lemma tables_not_page: "d \<in> set (page_tables p g) \<Longrightarrow> elem_type d \<noteq> ''page''"
  by (auto simp: page_tables_def table_element_def)

lemma structure_page_pages:
  "filter (\<lambda>e. elem_type e = ''page'' \<and> page_number (grounding e) = p) (structure_page (q, g))
     = (if q = p then [hd (structure_page (q, g))] else [])"
proof -
  have "filter (\<lambda>e. elem_type e = ''page'' \<and> page_number (grounding e) = p) (page_texts q g) = []"
    using texts_not_page by (fastforce simp: filter_empty_conv)
  moreover have "filter (\<lambda>e. elem_type e = ''page'' \<and> page_number (grounding e) = p) (page_tables q g) = []"
    using tables_not_page by (fastforce simp: filter_empty_conv)
  ultimately show ?thesis
    by (cases "q = p") (simp_all add: structure_page_eq page_element_props)
qed

lemma count_key:
  "distinct (map fst ps) \<Longrightarrow>
     length (filter (\<lambda>e. fst e = p) ps) = (if p \<in> fst ` set ps then 1 else 0)"
proof (induction ps)
  case Nil then show ?case by simp
next
  case (Cons a ps)
  show ?case
  proof (cases "fst a = p")
    case True
    with Cons.prems have "p \<notin> fst ` set ps" by auto
    then have "filter (\<lambda>e. fst e = p) ps = []" by (auto simp: filter_empty_conv)
    with True show ?thesis by simp
  next
    case False
    with Cons show ?thesis by auto
  qed
qed

lemma page_filter_concat:
  "length (filter (\<lambda>e. elem_type e = ''page'' \<and> page_number (grounding e) = p)
     (concat (map structure_page ps)))
   = length (filter (\<lambda>e. fst e = p) ps)"
proof (induction ps)
  case Nil then show ?case by simp
next
  case (Cons a ps)
  obtain q g where a: "a = (q, g)" by (cases a)
  with Cons.IH show ?case by (simp add: structure_page_pages)
qed

lemma page_count:
  "length (filter (\<lambda>e. elem_type e = ''page'' \<and> page_number (grounding e) = p) (build_elements raws))
     = (if p \<in> page_of ` set raws then 1 else 0)"
  by (simp add: build_elements_def page_filter_concat count_key group_distinct group_keys)

lemma build_member:
  "e \<in> set (build_elements raws) \<longleftrightarrow> (\<exists>p g. (p, g) \<in> set (group_by_page raws) \<and> e \<in> set (structure_page (p, g)))"
  by (auto simp: build_elements_def)

lemma page_children_present:
  assumes "e \<in> set (build_elements raws)" "elem_type e = ''page''" "c \<in> set (children_ids e)"
  shows "\<exists>d \<in> set (build_elements raws). elem_id d = c \<and> parent_id d = Some (elem_id e)"
proof -
  from assms(1) obtain p g where pg: "(p, g) \<in> set (group_by_page raws)"
    and e: "e \<in> set (structure_page (p, g))" unfolding build_member by blast
  let ?pe = "page_element p (map elem_id (page_texts p g) @ map elem_id (page_tables p g))"
  from e assms(2) have e_eq: "e = ?pe"
    unfolding structure_page_split using texts_not_page tables_not_page by blast
  have "children_ids ?pe = map elem_id (page_texts p g) @ map elem_id (page_tables p g)"
    using page_element_props by blast
  with assms(3) e_eq have "c \<in> elem_id ` (set (page_texts p g) \<union> set (page_tables p g))"
    by auto
  then obtain d where d: "d \<in> set (page_texts p g) \<or> d \<in> set (page_tables p g)" and c: "elem_id d = c"
    by blast
  from d have par: "parent_id d = Some (''page_'' @ str_int p)"
    using page_texts_props page_tables_props by blast
  have id: "elem_id ?pe = ''page_'' @ str_int p" using page_element_props by blast
  from d have "d \<in> set (structure_page (p, g))" unfolding structure_page_split by blast
  with pg have "d \<in> set (build_elements raws)" unfolding build_member by blast
  moreover from par id e_eq have "parent_id d = Some (elem_id e)" by simp
  ultimately show ?thesis using c by blast
qed

lemma parent_present:
  assumes "e \<in> set (build_elements raws)" "elem_type e \<noteq> ''page''"
  shows "\<exists>d \<in> set (build_elements raws). parent_id e = Some (elem_id d) \<and> elem_type d = ''page''"
proof -
  from assms(1) obtain p g where pg: "(p, g) \<in> set (group_by_page raws)"
    and e: "e \<in> set (structure_page (p, g))" unfolding build_member by blast
  let ?pe = "page_element p (map elem_id (page_texts p g) @ map elem_id (page_tables p g))"
  have ty: "elem_type ?pe = ''page''" and id: "elem_id ?pe = ''page_'' @ str_int p"
    using page_element_props by blast+
  from e assms(2) ty have "e \<in> set (page_texts p g) \<or> e \<in> set (page_tables p g)"
    unfolding structure_page_split by metis
  then have par: "parent_id e = Some (''page_'' @ str_int p)"
    using page_texts_props page_tables_props by blast
  have "?pe \<in> set (structure_page (p, g))" unfolding structure_page_split by blast
  with pg have "?pe \<in> set (build_elements raws)" unfolding build_member by blast
  moreover from par id have "parent_id e = Some (elem_id ?pe)" by simp
  ultimately show ?thesis using ty by blast
qed

lemma page_elements_shape:
  assumes "e \<in> set (build_elements raws)" "elem_type e = ''page''"
  shows "bounding_box (grounding e) = \<lparr>box_x = 0, box_y = 0, box_width = 1, box_height = 1\<rparr>
     \<and> g_confidence (grounding e) = 1 \<and> confidence e = 1"
proof -
  from assms(1) obtain p g where pg: "(p, g) \<in> set (group_by_page raws)"
    and e: "e \<in> set (structure_page (p, g))" unfolding build_member by blast
  from e assms(2) have "e = page_element p (map elem_id (page_texts p g) @ map elem_id (page_tables p g))"
    unfolding structure_page_split using texts_not_page tables_not_page by blast
  then show ?thesis using page_element_props by metis
qed

lemma page_total:
  "length (filter (\<lambda>e. elem_type e = ''page'') (build_elements raws)) = card (page_of ` set raws)"
proof -
  have one: "\<And>q g. length (filter (\<lambda>e. elem_type e = ''page'') (structure_page (q, g))) = 1"
  proof -
    fix q g
    have "filter (\<lambda>e. elem_type e = ''page'') (page_texts q g) = []"
      using texts_not_page by (fastforce simp: filter_empty_conv)
    moreover have "filter (\<lambda>e. elem_type e = ''page'') (page_tables q g) = []"
      using tables_not_page by (fastforce simp: filter_empty_conv)
    ultimately show "length (filter (\<lambda>e. elem_type e = ''page'') (structure_page (q, g))) = 1"
      by (simp add: structure_page_eq page_element_props)
  qed
  have "\<And>ps. length (filter (\<lambda>e. elem_type e = ''page'') (concat (map structure_page ps))) = length ps"
  proof -
    fix ps :: "(int \<times> page_groups) list"
    show "length (filter (\<lambda>e. elem_type e = ''page'') (concat (map structure_page ps))) = length ps"
    proof (induction ps)
      case Nil then show ?case by simp
    next
      case (Cons a ps)
      obtain q g where "a = (q, g)" by (cases a)
      with Cons.IH one [of q g] show ?case by simp
    qed
  qed
  then have "length (filter (\<lambda>e. elem_type e = ''page'') (build_elements raws))
             = length (map fst (group_by_page raws))"
    by (simp add: build_elements_def)
  also have "\<dots> = card (set (map fst (group_by_page raws)))"
    using distinct_card [OF group_distinct [of raws]] by simp
  also have "\<dots> = card (page_of ` set raws)"
    using group_keys [of raws] by simp
  finally show ?thesis .
qed

text \<open>
  C8. In the tree the structuring step builds from any list of raw fragments, there is
  exactly one page element for every page number some fragment has (a fragment without a
  page counts for page 1) and none for any other number; each page element has the box
  (0, 0, 1, 1) and confidence 1.0; every id among the children ids of a page element is
  the id of an element of the same output whose parent id is that page's id; and every
  element that is not a page has a parent id that is the id of a page element of the
  output.
\<close>

theorem build_elements_tree:
  "(\<forall>p. length (filter (\<lambda>e. elem_type e = ''page'' \<and> page_number (grounding e) = p)
                 (build_elements raws))
         = (if p \<in> page_of ` set raws then 1 else 0))
   \<and> length (filter (\<lambda>e. elem_type e = ''page'') (build_elements raws)) = card (page_of ` set raws)
   \<and> (\<forall>e \<in> set (build_elements raws). elem_type e = ''page'' \<longrightarrow>
         bounding_box (grounding e) = \<lparr>box_x = 0, box_y = 0, box_width = 1, box_height = 1\<rparr>
         \<and> g_confidence (grounding e) = 1 \<and> confidence e = 1)
   \<and> (\<forall>e \<in> set (build_elements raws). elem_type e = ''page'' \<longrightarrow>
         (\<forall>c \<in> set (children_ids e).
            \<exists>d \<in> set (build_elements raws). elem_id d = c \<and> parent_id d = Some (elem_id e)))
   \<and> (\<forall>e \<in> set (build_elements raws). elem_type e \<noteq> ''page'' \<longrightarrow>
         (\<exists>d \<in> set (build_elements raws). parent_id e = Some (elem_id d) \<and> elem_type d = ''page''))"
  using page_count page_total page_elements_shape page_children_present parent_present
  by blast

lemma str_int_1: "str_int 1 = ''1''" "str_int 2 = ''2''" "str_nat 0 = ''0''" "str_nat 1 = ''1''"
  "str_nat (Suc 0) = ''1''"
  by code_simp+

lemma build_example:
  "build_elements [text_fragment (Some 1) ''a'', text_fragment None ''b'', bare_table (Some 2)]
   = [page_element 1 [''text_1_0'', ''text_1_1''],
      text_element 1 0 (text_fragment (Some 1) ''a''),
      text_element 1 1 (text_fragment None ''b''),
      page_element 2 [''table_2_0''],
      table_element 2 0 (bare_table (Some 2))]"
  by (simp add: build_elements_def group_by_page_def page_of_def get_or_def text_fragment_def
        bare_table_def file_fragment_def empty_groups_def structure_page_def page_texts_def
        page_tables_def enumerate_eq_zip upt_rec text_element_def table_element_def str_int_1)

theorem build_elements_tree_witness:
  "length (filter (\<lambda>e. elem_type e = ''page'' \<and> page_number (grounding e) = 2)
      (build_elements [text_fragment (Some 1) ''a'', text_fragment None ''b'', bare_table (Some 2)])) = 1
   \<and> length (filter (\<lambda>e. elem_type e = ''page'')
      (build_elements [text_fragment (Some 1) ''a'', text_fragment None ''b'', bare_table (Some 2)])) = 2
   \<and> page_element 1 [''text_1_0'', ''text_1_1'']
      \<in> set (build_elements [text_fragment (Some 1) ''a'', text_fragment None ''b'', bare_table (Some 2)])
   \<and> (\<exists>d \<in> set (build_elements [text_fragment (Some 1) ''a'', text_fragment None ''b'', bare_table (Some 2)]).
         elem_id d = ''text_1_1'' \<and> parent_id d = Some ''page_1'')"
proof -
  let ?raws = "[text_fragment (Some 1) ''a'', text_fragment None ''b'', bare_table (Some 2)]"
  let ?pe = "page_element 1 [''text_1_0'', ''text_1_1'']"
  note tree = build_elements_tree [of ?raws]
  have pages: "page_of ` set ?raws = {1, 2}"
    by (auto simp: page_of_def get_or_def text_fragment_def bare_table_def)
  have mem: "?pe \<in> set (build_elements ?raws)" by (simp add: build_example)
  have ty: "elem_type ?pe = ''page''" and ch: "''text_1_1'' \<in> set (children_ids ?pe)"
    and id: "elem_id ?pe = ''page_1''"
    by (simp_all add: page_element_def str_int_1)
  have c1: "length (filter (\<lambda>e. elem_type e = ''page'' \<and> page_number (grounding e) = 2)
      (build_elements ?raws)) = 1"
    using spec [OF conjunct1 [OF tree], of 2] unfolding pages by simp
  have c2: "length (filter (\<lambda>e. elem_type e = ''page'') (build_elements ?raws)) = 2"
    using conjunct1 [OF conjunct2 [OF tree]] unfolding pages by simp
  from tree mem ty ch have "\<exists>d \<in> set (build_elements ?raws).
         elem_id d = ''text_1_1'' \<and> parent_id d = Some (elem_id ?pe)" by blast
  with id have c3: "\<exists>d \<in> set (build_elements ?raws).
         elem_id d = ''text_1_1'' \<and> parent_id d = Some ''page_1''" by simp
  from c1 c2 mem c3 show ?thesis by blast
qed

section \<open>Defaults of a table element\<close>

text \<open>
  C4, as the code has it. For every table fragment of the input that carries no bounding
  box, the structuring step puts into its output the table element synthesized from it,
  with the box \<open>(x = 0, y = 0, width = 0.8, height = 0.3)\<close> and the fixed confidence
  0.9, in the grounding and on the element. The defaults of \<open>x\<close> and \<open>y\<close> are
  0, as for text elements, not 0.1: the box (0.1, 0.1, 0.8, 0.3) is the one the PDF table
  extractor writes into the fragments it emits.
\<close>

theorem table_default_box:
  assumes "f \<in> set raws" and "frag_type f = Some ''table''" and "frag_bbox f = None"
  shows "\<exists>i. table_element (page_of f) i f \<in> set (build_elements raws)
     \<and> bounding_box (grounding (table_element (page_of f) i f))
         = \<lparr>box_x = 0, box_y = 0, box_width = 0.8, box_height = 0.3\<rparr>
     \<and> g_confidence (grounding (table_element (page_of f) i f)) = 0.9
     \<and> confidence (table_element (page_of f) i f) = 0.9"
  using table_in_build [OF assms(1,2)] table_element_defaults [OF assms(3)] by blast

text \<open>
  The claim as stated fails on a single table fragment with no box: the element built
  from it does not have the box (0.1, 0.1, 0.8, 0.3).
\<close>

theorem table_default_box_counterexample:
  "frag_type (bare_table None) = Some ''table'' \<and> frag_bbox (bare_table None) = None
   \<and> build_elements [bare_table None]
       = [page_element 1 [''table_1_0''], table_element 1 0 (bare_table None)]
   \<and> bounding_box (grounding (table_element 1 0 (bare_table None)))
       = \<lparr>box_x = 0, box_y = 0, box_width = 0.8, box_height = 0.3\<rparr>
   \<and> bounding_box (grounding (table_element 1 0 (bare_table None)))
       \<noteq> \<lparr>box_x = 0.1, box_y = 0.1, box_width = 0.8, box_height = 0.3\<rparr>"
  by (simp add: build_elements_def group_by_page_def page_of_def get_or_def
        bare_table_def file_fragment_def empty_groups_def structure_page_def page_texts_def
        page_tables_def enumerate_eq_zip upt_rec table_element_def str_int_1 bbox_get_def)

theorem table_default_box_witness:
  "bare_table None \<in> set [bare_table None]
   \<and> frag_type (bare_table None) = Some ''table''
   \<and> frag_bbox (bare_table None) = None
   \<and> (\<exists>i. table_element 1 i (bare_table None) \<in> set (build_elements [bare_table None])
        \<and> bounding_box (grounding (table_element 1 i (bare_table None)))
            = \<lparr>box_x = 0, box_y = 0, box_width = 0.8, box_height = 0.3\<rparr>
        \<and> confidence (table_element 1 i (bare_table None)) = 0.9)"
proof -
  have m: "bare_table None \<in> set [bare_table None]" by simp
  have t: "frag_type (bare_table None) = Some ''table''" by (simp add: bare_table_def)
  have b: "frag_bbox (bare_table None) = None" by (simp add: bare_table_def)
  have p: "page_of (bare_table None) = 1" by (simp add: page_of_def get_or_def bare_table_def)
  from table_default_box [OF m t b] p m t b show ?thesis by auto
qed

section \<open>What chunk\_text keeps\<close>

lemma split_acc_nonempty: "split_acc sep cur s \<noteq> []"
  by (induction sep cur s rule: split_acc.induct) auto

lemma join_Cons: "ys \<noteq> [] \<Longrightarrow> join sep (x # ys) = x @ sep @ join sep ys"
  by (cases ys) auto

lemma join_split_acc: "sep \<noteq> [] \<Longrightarrow> join sep (split_acc sep cur s) = cur @ s"
proof (induction sep cur s rule: split_acc.induct)
  case (1 sep cur)
  then show ?case by simp
next
  case (2 sep cur c cs)
  show ?case
  proof (cases "prefix sep (c # cs)")
    case True
    then have eq: "c # cs = sep @ drop (length sep) (c # cs)"
      by (metis append_eq_conv_conj prefix_def)
    from True 2 have "join sep (split_acc sep [] (drop (length sep) (c # cs))) = drop (length sep) (c # cs)"
      by simp
    with True 2(3) eq show ?thesis
      by (simp add: join_Cons split_acc_nonempty)
  next
    case False
    with 2 show ?thesis by simp
  qed
qed

lemma join_as_concat: "join sep (x # xs) = x @ concat (map (\<lambda>p. sep @ p) xs)"
  by (induction xs arbitrary: x) (auto simp: join_Cons)

lemma py_split_shape:
  "sep \<noteq> [] \<Longrightarrow> \<exists>p ps. py_split s sep = p # ps \<and> s = p @ concat (map (\<lambda>q. sep @ q) ps)"
proof -
  assume sep: "sep \<noteq> []"
  obtain p ps where eq: "py_split s sep = p # ps"
    using split_acc_nonempty [of sep "[]" s] by (cases "py_split s sep") (auto simp: py_split_def)
  from join_split_acc [OF sep, of "[]" s] eq have "s = join sep (p # ps)"
    by (simp add: py_split_def)
  with eq show ?thesis by (auto simp: join_as_concat)
qed

lemma pieces_concat: "0 < n \<Longrightarrow> concat (pieces n s) = s"
proof (induction n s rule: pieces.induct)
  case (1 n s)
  show ?case
  proof (cases "s = []")
    case True then show ?thesis by (simp add: pieces.simps)
  next
    case False
    with 1 have "concat (pieces n (drop n s)) = drop n s" by simp
    with False 1(2) show ?thesis by (simp add: pieces.simps [of n s])
  qed
qed

lemma pieces_bound: "0 < n \<Longrightarrow> c \<in> set (pieces n s) \<Longrightarrow> length c \<le> n"
proof (induction n s arbitrary: c rule: pieces.induct)
  case (1 n s)
  show ?case
  proof (cases "s = []")
    case True with 1(3) show ?thesis by (simp add: pieces.simps)
  next
    case False
    with 1(2,3) have "c = take n s \<or> c \<in> set (pieces n (drop n s))"
      by (simp add: pieces.simps [of n s])
    then show ?thesis
    proof
      assume "c = take n s" then show ?thesis by simp
    next
      assume "c \<in> set (pieces n (drop n s))"
      with 1(1) [OF _ 1(2)] False 1(2) show ?thesis by simp
    qed
  qed
qed

lemma joiner_runs_append: "g \<in> joiner_runs \<Longrightarrow> h \<in> joiner_runs \<Longrightarrow> g @ h \<in> joiner_runs"
  by (induction rule: joiner_runs.induct) (auto intro: joiner_runs.intros)

lemma sep_joiners: "para_sep \<in> joiner_runs" "sent_sep \<in> joiner_runs"
  using para_joiner [OF no_joiner] sent_joiner [OF no_joiner] by simp_all

lemma rejoins_lead: "rejoins cs t \<Longrightarrow> g \<in> joiner_runs \<Longrightarrow> rejoins cs (g @ t)"
proof (induction cs t rule: rejoins.induct)
  case (rejoins_end h)
  then show ?case by (auto intro: rejoins.intros joiner_runs_append)
next
  case (rejoins_chunk h cs t c)
  from rejoins_chunk(4) rejoins_chunk(1) have "g @ h \<in> joiner_runs" by (rule joiner_runs_append)
  from rejoins.rejoins_chunk [OF this rejoins_chunk(2), of c] show ?case by simp
qed

lemma rejoins_append: "rejoins xs s \<Longrightarrow> rejoins ys t \<Longrightarrow> rejoins (xs @ ys) (s @ t)"
proof (induction xs s rule: rejoins.induct)
  case (rejoins_end g)
  then show ?case by (simp add: rejoins_lead)
next
  case (rejoins_chunk g cs u c)
  from rejoins_chunk(3) [OF rejoins_chunk(4)] have "rejoins (cs @ ys) (u @ t)" .
  from rejoins.rejoins_chunk [OF rejoins_chunk(1) this, of c] show ?case by simp
qed

lemma rejoins_single: "rejoins [c] c"
  using rejoins.rejoins_chunk [OF no_joiner rejoins_end [OF no_joiner], of c] by simp

lemma rejoins_trail: "rejoins cs t \<Longrightarrow> g \<in> joiner_runs \<Longrightarrow> rejoins cs (t @ g)"
  using rejoins_append [of cs t "[]" g] by (simp add: rejoins_end)

lemma rejoins_snoc: "rejoins cs t \<Longrightarrow> rejoins (cs @ [c]) (t @ c)"
  using rejoins_append [OF _ rejoins_single] .

lemma rejoins_pieces: "0 < n \<Longrightarrow> rejoins (pieces n s) s"
proof (induction n s rule: pieces.induct)
  case (1 n s)
  show ?case
  proof (cases "s = []")
    case True
    then show ?thesis by (simp add: pieces.simps rejoins_end no_joiner)
  next
    case False
    with 1 have "rejoins (pieces n (drop n s)) (drop n s)" by simp
    from rejoins_chunk [OF no_joiner this, of "take n s"] False 1(2)
    show ?thesis by (simp add: pieces.simps [of n s])
  qed
qed

lemma flush_covers:
  "covers st t \<Longrightarrow> rejoins (fst (flush st)) t \<and> snd (flush st) = []"
  by (cases st) (auto simp: covers_def flush_def rejoins_snoc)

lemma flush_bounded: "bounded m st \<Longrightarrow> bounded m (flush st)"
  by (cases st) (auto simp: bounded_def flush_def)

lemma sentence_step_ok:
  assumes m: "0 < m" and cov: "covers st t" and bnd: "bounded m st"
    and j: "j \<in> joiner_runs" and js: "snd st \<noteq> [] \<longrightarrow> j = sent_sep"
  shows "\<exists>st'. sentence_step m s st = Some st' \<and> covers st' (t @ j @ s) \<and> bounded m st'"
proof -
  obtain chunks cur where st: "st = (chunks, cur)" by (cases st)
  obtain chunks1 cur1 where fl: "flush (chunks, cur) = (chunks1, cur1)" by (cases "flush (chunks, cur)")
  from flush_covers [OF cov] st fl have r1: "rejoins chunks1 t" and c1: "cur1 = []" by auto
  from flush_bounded [OF bnd] st fl have b1: "\<forall>c \<in> set chunks1. int (length c) \<le> m"
    by (simp add: bounded_def)
  from r1 j have r1j: "rejoins chunks1 (t @ j)" by (rule rejoins_trail)
  show ?thesis
  proof (cases "int (length cur) + int (length s) + 2 > m")
    case over: True
    show ?thesis
    proof (cases "int (length s) > m")
      case True
      from m have cp: "char_pieces m s = Some (pieces (nat m) s)" by (simp add: char_pieces_def)
      from m have "rejoins (pieces (nat m) s) s" by (simp add: rejoins_pieces)
      with r1j have "rejoins (chunks1 @ pieces (nat m) s) ((t @ j) @ s)" by (rule rejoins_append)
      then have "covers (chunks1 @ pieces (nat m) s, cur1) (t @ j @ s)"
        using c1 by (auto simp: covers_def)
      moreover have "bounded m (chunks1 @ pieces (nat m) s, cur1)"
        using b1 c1 m pieces_bound [of "nat m" _ s] by (fastforce simp: bounded_def)
      ultimately show ?thesis using st over True fl cp by (simp add: sentence_step_def)
    next
      case False
      from r1j have "covers (chunks1, s) (t @ j @ s)" by (auto simp: covers_def)
      moreover from b1 False have "bounded m (chunks1, s)" by (simp add: bounded_def)
      ultimately show ?thesis using st over False fl by (simp add: sentence_step_def)
    qed
  next
    case fits: False
    show ?thesis
    proof (cases "cur = []")
      case True
      from cov st True have "rejoins chunks t" by (auto simp: covers_def)
      then have "rejoins chunks (t @ j)" using j by (rule rejoins_trail)
      then have "covers (chunks, s) (t @ j @ s)" by (auto simp: covers_def)
      moreover from bnd st fits have "bounded m (chunks, s)" by (simp add: bounded_def)
      ultimately show ?thesis using st fits True by (simp add: sentence_step_def)
    next
      case False
      with js st have jj: "j = sent_sep" by simp
      from cov st obtain a where a: "rejoins chunks a" "t = a @ cur" by (auto simp: covers_def)
      then have "covers (chunks, cur @ sent_sep @ s) (t @ j @ s)"
        using jj by (auto simp: covers_def)
      moreover from bnd st fits have "bounded m (chunks, cur @ sent_sep @ s)"
        by (simp add: bounded_def sent_sep_def)
      ultimately show ?thesis using st fits False by (simp add: sentence_step_def)
    qed
  qed
qed

lemma sentence_loop_ok:
  assumes m: "0 < m"
  shows "covers st t \<Longrightarrow> bounded m st \<Longrightarrow>
    \<exists>st'. sentence_loop m ss st = Some st'
       \<and> covers st' (t @ concat (map (\<lambda>q. sent_sep @ q) ss)) \<and> bounded m st'"
proof (induction ss arbitrary: st t)
  case Nil
  then show ?case by simp
next
  case (Cons s ss)
  from sentence_step_ok [OF m Cons.prems(1,2) sep_joiners(2), of s]
  obtain st1 where s1: "sentence_step m s st = Some st1"
    and c1: "covers st1 (t @ sent_sep @ s)" and b1: "bounded m st1" by auto
  from Cons.IH [OF c1 b1] obtain st' where "sentence_loop m ss st1 = Some st'"
    "covers st' ((t @ sent_sep @ s) @ concat (map (\<lambda>q. sent_sep @ q) ss))" "bounded m st'"
    by blast
  with s1 show ?case by simp
qed

lemma sentences_of_paragraph_ok:
  assumes m: "0 < m" and r: "rejoins chunks t" and b: "\<forall>c \<in> set chunks. int (length c) \<le> m"
  shows "\<exists>st'. sentence_loop m (py_split p sent_sep) (chunks, []) = Some st'
       \<and> covers st' (t @ p) \<and> bounded m st'"
proof -
  have "sent_sep \<noteq> []" by (simp add: sent_sep_def)
  from py_split_shape [OF this, of p] obtain s ss where
    sp: "py_split p sent_sep = s # ss" and p: "p = s @ concat (map (\<lambda>q. sent_sep @ q) ss)" by blast
  from r have cov: "covers (chunks, []) t" by (simp add: covers_def)
  from b m have bnd: "bounded m (chunks, [])" by (simp add: bounded_def)
  from sentence_step_ok [OF m cov bnd no_joiner, of s]
  obtain st1 where s1: "sentence_step m s (chunks, []) = Some st1"
    and c1: "covers st1 (t @ s)" and b1: "bounded m st1" by auto
  from sentence_loop_ok [OF m c1 b1, of ss] obtain st' where "sentence_loop m ss st1 = Some st'"
    "covers st' ((t @ s) @ concat (map (\<lambda>q. sent_sep @ q) ss))" "bounded m st'"
    by blast
  with s1 sp p show ?thesis by simp
qed

lemma paragraph_step_ok:
  assumes m: "0 < m" and cov: "covers st t" and bnd: "bounded m st"
    and j: "j \<in> joiner_runs" and js: "snd st \<noteq> [] \<longrightarrow> j = para_sep"
  shows "\<exists>st'. paragraph_step m p st = Some st' \<and> covers st' (t @ j @ p) \<and> bounded m st'"
proof -
  obtain chunks cur where st: "st = (chunks, cur)" by (cases st)
  obtain chunks1 cur1 where fl: "flush (chunks, cur) = (chunks1, cur1)" by (cases "flush (chunks, cur)")
  from flush_covers [OF cov] st fl have r1: "rejoins chunks1 t" and c1: "cur1 = []" by auto
  from flush_bounded [OF bnd] st fl have b1: "\<forall>c \<in> set chunks1. int (length c) \<le> m"
    by (simp add: bounded_def)
  from r1 j have r1j: "rejoins chunks1 (t @ j)" by (rule rejoins_trail)
  show ?thesis
  proof (cases "int (length cur) + int (length p) + 2 > m")
    case over: True
    show ?thesis
    proof (cases "int (length p) > m")
      case True
      from sentences_of_paragraph_ok [OF m r1j b1, of p] obtain st' where
        "sentence_loop m (py_split p sent_sep) (chunks1, []) = Some st'"
        "covers st' ((t @ j) @ p)" "bounded m st'" by blast
      then show ?thesis using st over True fl c1 by (simp add: paragraph_step_def)
    next
      case False
      from r1j have "covers (chunks1, p) (t @ j @ p)" by (auto simp: covers_def)
      moreover from b1 False have "bounded m (chunks1, p)" by (simp add: bounded_def)
      ultimately show ?thesis using st over False fl by (simp add: paragraph_step_def)
    qed
  next
    case fits: False
    show ?thesis
    proof (cases "cur = []")
      case True
      from cov st True have "rejoins chunks t" by (auto simp: covers_def)
      then have "rejoins chunks (t @ j)" using j by (rule rejoins_trail)
      then have "covers (chunks, p) (t @ j @ p)" by (auto simp: covers_def)
      moreover from bnd st fits have "bounded m (chunks, p)" by (simp add: bounded_def)
      ultimately show ?thesis using st fits True by (simp add: paragraph_step_def)
    next
      case False
      with js st have jj: "j = para_sep" by simp
      from cov st obtain a where a: "rejoins chunks a" "t = a @ cur" by (auto simp: covers_def)
      then have "covers (chunks, cur @ para_sep @ p) (t @ j @ p)"
        using jj by (auto simp: covers_def)
      moreover from bnd st fits have "bounded m (chunks, cur @ para_sep @ p)"
        by (simp add: bounded_def para_sep_def)
      ultimately show ?thesis using st fits False by (simp add: paragraph_step_def)
    qed
  qed
qed

lemma paragraph_loop_ok:
  assumes m: "0 < m"
  shows "covers st t \<Longrightarrow> bounded m st \<Longrightarrow>
    \<exists>st'. paragraph_loop m ps st = Some st'
       \<and> covers st' (t @ concat (map (\<lambda>q. para_sep @ q) ps)) \<and> bounded m st'"
proof (induction ps arbitrary: st t)
  case Nil
  then show ?case by simp
next
  case (Cons p ps)
  from paragraph_step_ok [OF m Cons.prems(1,2) sep_joiners(1), of p]
  obtain st1 where s1: "paragraph_step m p st = Some st1"
    and c1: "covers st1 (t @ para_sep @ p)" and b1: "bounded m st1" by auto
  from Cons.IH [OF c1 b1] obtain st' where "paragraph_loop m ps st1 = Some st'"
    "covers st' ((t @ para_sep @ p) @ concat (map (\<lambda>q. para_sep @ q) ps))" "bounded m st'"
    by blast
  with s1 show ?case by simp
qed

lemma chunk_text_ok:
  assumes m: "0 < m"
  shows "\<exists>chunks. chunk_text doc m = Some chunks
      \<and> (\<forall>c \<in> set chunks. int (length c) \<le> m) \<and> rejoins chunks doc"
proof (cases "int (length doc) \<le> m")
  case True
  then show ?thesis by (simp add: chunk_text_def rejoins_single)
next
  case False
  have "para_sep \<noteq> []" by (simp add: para_sep_def)
  from py_split_shape [OF this, of doc] obtain p ps where
    sp: "py_split doc para_sep = p # ps" and t: "doc = p @ concat (map (\<lambda>q. para_sep @ q) ps)"
    by blast
  have cov0: "covers ([], []) []" by (simp add: covers_def rejoins_end no_joiner)
  from m have bnd0: "bounded m ([], [])" by (simp add: bounded_def)
  from paragraph_step_ok [OF m cov0 bnd0 no_joiner, of p]
  obtain st1 where s1: "paragraph_step m p ([], []) = Some st1"
    and c1: "covers st1 p" and b1: "bounded m st1" by auto
  from paragraph_loop_ok [OF m c1 b1, of ps] obtain st' where
    l: "paragraph_loop m ps st1 = Some st'"
    and c: "covers st' (p @ concat (map (\<lambda>q. para_sep @ q) ps))" and b: "bounded m st'"
    by blast
  obtain chunks cur where st': "st' = (chunks, cur)" by (cases st')
  from c st' t obtain a where a: "rejoins chunks a" "doc = a @ cur" by (auto simp: covers_def)
  let ?out = "if cur \<noteq> [] then chunks @ [cur] else chunks"
  from a have "rejoins ?out doc" by (auto simp: rejoins_snoc)
  moreover from b st' have "\<forall>c \<in> set ?out. int (length c) \<le> m" by (auto simp: bounded_def)
  moreover from False sp s1 l st' have "chunk_text doc m = Some ?out"
    by (simp add: chunk_text_def)
  ultimately show ?thesis by blast
qed

lemma chunk_text_trailing_stop: "chunk_text ''aaaaaa. '' 6 = Some [''aaaaaa'']"
  by (simp add: chunk_text_def py_split_def para_sep_def sent_sep_def paragraph_step_def
        sentence_step_def flush_def char_pieces_def)

text \<open>
  C2, as the code has it. For every text and every positive \<open>max_chunk_size\<close>,
  \<open>chunk_text\<close> returns a list of chunks, none of them longer than
  \<open>max_chunk_size\<close> (a sentence that is longer is cut by character, so the bound has no
  exception), and the text is the chunks in order, put together with runs of the separators
  \<open>"\\n\\n"\<close> and \<open>". "\<close>: a run, possibly empty, before the first chunk, between
  neighbours and after the last chunk. Nothing but separators is lost.
\<close>

theorem chunk_text_rejoins:
  assumes "0 < max_chunk_size"
  shows "\<exists>chunks. chunk_text doc max_chunk_size = Some chunks
      \<and> (\<forall>c \<in> set chunks. int (length c) \<le> max_chunk_size) \<and> rejoins chunks doc"
  using assms by (rule chunk_text_ok)

theorem chunk_text_rejoins_witness:
  "(0::int) < 6 \<and> chunk_text ''aaaaaa. '' 6 = Some [''aaaaaa'']
   \<and> int (length ''aaaaaa'') \<le> 6 \<and> rejoins [''aaaaaa''] ''aaaaaa. ''"
proof -
  have pos: "(0::int) < 6" by simp
  from chunk_text_rejoins [OF pos, of "''aaaaaa. ''"] chunk_text_trailing_stop
  have "rejoins [''aaaaaa''] ''aaaaaa. ''" by auto
  with pos chunk_text_trailing_stop show ?thesis by simp
qed

text \<open>
  The claim as stated, with exactly one separator or none between two neighbouring chunks,
  fails: an empty paragraph or sentence is dropped together with its separator. The text
  \<open>"aaaaaa. "\<close> with the limit 6 comes back as the single chunk \<open>"aaaaaa"\<close>; the
  full stop and the blank at its end are gone, and no separator can be put back between
  the chunks of a list of one.
\<close>

theorem chunk_text_exact_counterexample:
  "(0::int) < 6 \<and> chunk_text ''aaaaaa. '' 6 = Some [''aaaaaa'']
   \<and> \<not> rejoins_exactly [''aaaaaa''] ''aaaaaa. ''"
  using chunk_text_trailing_stop by simp

section \<open>The concurrency ceiling\<close>

lemma filter_count_update:
  "i < length xs \<Longrightarrow>
     length (filter P (xs[i := y])) + (if P (xs ! i) then 1 else 0)
       = length (filter P xs) + (if P y then 1 else 0)"
proof (induction xs arbitrary: i)
  case Nil then show ?case by simp
next
  case (Cons x xs)
  show ?case
  proof (cases i)
    case 0 then show ?thesis by simp
  next
    case (Suc k)
    with Cons.prems have "k < length xs" by simp
    from Cons.IH [OF this] Suc show ?thesis by simp
  qed
qed

lemma step_holding:
  assumes "sched_step succeeds s t"
  shows "sem_value t + holding t = sem_value s + holding s \<and> length (phases t) = length (phases s)"
  using assms
proof (cases rule: sched_step.cases)
  case (acquire i)
  from filter_count_update [OF acquire(2), of "\<lambda>p. p = Working \<or> p = Sleeping" Working] acquire
  show ?thesis by (simp add: holding_def)
next
  case (worker_returns i)
  from filter_count_update [OF worker_returns(2), of "\<lambda>p. p = Working \<or> p = Sleeping" Sleeping]
    worker_returns
  show ?thesis by (simp add: holding_def)
next
  case (worker_raises i)
  from filter_count_update [OF worker_raises(2), of "\<lambda>p. p = Working \<or> p = Sleeping" Done]
    worker_raises
  show ?thesis by (simp add: holding_def)
next
  case (wake_and_release i)
  from filter_count_update [OF wake_and_release(2), of "\<lambda>p. p = Working \<or> p = Sleeping" Done]
    wake_and_release
  show ?thesis by (simp add: holding_def)
qed

lemma reachable_holding:
  "sched_reachable succeeds n k s \<Longrightarrow>
     sem_value s + holding s = n \<and> length (phases s) = k"
proof (induction rule: sched_reachable.induct)
  case sched_start
  show ?case by (simp add: sched_init_def holding_def)
next
  case (sched_next s t)
  with step_holding [OF sched_next(2)] show ?case by simp
qed

lemma filter_count_mono:
  "(\<And>x. P x \<Longrightarrow> Q x) \<Longrightarrow> length (filter P xs) \<le> length (filter Q xs)"
  by (induction xs) auto

lemma active_le_holding: "active s \<le> holding s"
  unfolding active_def holding_def by (rule filter_count_mono) simp

lemma step_serial:
  assumes "sched_step succeeds s t" and "serial_inv s"
  shows "serial_inv t"
  using assms(1)
proof (cases rule: sched_step.cases)
  case (acquire i)
  with assms(2) have free: "sem_value s = 1" "started s = completed s"
    "\<forall>j < length (phases s). phases s ! j \<noteq> Working \<and> phases s ! j \<noteq> Sleeping"
    by (auto simp: serial_inv_def)
  have "\<forall>j < length (phases s). ((phases s)[i := Working] ! j = Working
          \<or> (phases s)[i := Working] ! j = Sleeping) = (j = i)"
    using free(3) acquire(2) by (auto simp: nth_list_update)
  with acquire free show ?thesis by (auto simp: serial_inv_def)
next
  case (worker_returns i)
  with assms(2) obtain k where k: "sem_value s = 0" "k < length (phases s)"
    "started s = completed s @ [k]"
    "\<forall>j < length (phases s). (phases s ! j = Working \<or> phases s ! j = Sleeping) = (j = k)"
    by (auto simp: serial_inv_def)
  from k(4) worker_returns(2,3) have ik: "i = k" by blast
  have "\<forall>j < length (phases s). ((phases s)[i := Sleeping] ! j = Working
          \<or> (phases s)[i := Sleeping] ! j = Sleeping) = (j = k)"
    using k(4) ik worker_returns(2) by (auto simp: nth_list_update)
  with worker_returns k show ?thesis by (auto simp: serial_inv_def)
next
  case (worker_raises i)
  with assms(2) obtain k where k: "sem_value s = 0" "k < length (phases s)"
    "started s = completed s @ [k]"
    "\<forall>j < length (phases s). (phases s ! j = Working \<or> phases s ! j = Sleeping) = (j = k)"
    by (auto simp: serial_inv_def)
  from k(4) worker_raises(2,3) have ik: "i = k" by blast
  have "\<forall>j < length (phases s). (phases s)[i := Done] ! j \<noteq> Working
          \<and> (phases s)[i := Done] ! j \<noteq> Sleeping"
    using k(4) ik worker_raises(2) by (auto simp: nth_list_update)
  with worker_raises k ik show ?thesis by (auto simp: serial_inv_def)
next
  case (wake_and_release i)
  with assms(2) obtain k where k: "sem_value s = 0" "k < length (phases s)"
    "started s = completed s @ [k]"
    "\<forall>j < length (phases s). (phases s ! j = Working \<or> phases s ! j = Sleeping) = (j = k)"
    by (auto simp: serial_inv_def)
  from k(4) wake_and_release(2,3) have ik: "i = k" by blast
  have "\<forall>j < length (phases s). (phases s)[i := Done] ! j \<noteq> Working
          \<and> (phases s)[i := Done] ! j \<noteq> Sleeping"
    using k(4) ik wake_and_release(2) by (auto simp: nth_list_update)
  with wake_and_release k ik show ?thesis by (auto simp: serial_inv_def)
qed

lemma reachable_serial: "sched_reachable succeeds 1 k s \<Longrightarrow> serial_inv s"
proof (induction rule: sched_reachable.induct)
  case sched_start
  show ?case by (simp add: serial_inv_def sched_init_def)
next
  case (sched_next s t)
  then show ?case using step_serial by blast
qed

lemma collect_all_returned:
  "\<forall>x \<in> set xs. \<not> isl x \<Longrightarrow> collect_results xs acc = Inr (acc @ map projr xs)"
proof (induction xs arbitrary: acc)
  case Nil then show ?case by simp
next
  case (Cons x xs)
  then obtain r where "x = Inr r" by (cases x) auto
  with Cons show ?case by simp
qed

lemma step_started:
  assumes "sched_step succeeds s t"
    and "distinct (started s) \<and> (\<forall>i \<in> set (started s). i < length (phases s) \<and> phases s ! i \<noteq> Waiting)"
  shows "distinct (started t) \<and> (\<forall>i \<in> set (started t). i < length (phases t) \<and> phases t ! i \<noteq> Waiting)"
  using assms
proof (cases rule: sched_step.cases)
  case (acquire i)
  with assms(2) have "i \<notin> set (started s)" by auto
  with acquire assms(2) show ?thesis by (auto simp: nth_list_update)
next
  case (worker_returns i)
  with assms(2) show ?thesis by (auto simp: nth_list_update)
next
  case (worker_raises i)
  with assms(2) show ?thesis by (auto simp: nth_list_update)
next
  case (wake_and_release i)
  with assms(2) show ?thesis by (auto simp: nth_list_update)
qed

lemma reachable_started:
  "sched_reachable succeeds n k s \<Longrightarrow>
     distinct (started s) \<and> (\<forall>i \<in> set (started s). i < length (phases s) \<and> phases s ! i \<noteq> Waiting)"
proof (induction rule: sched_reachable.induct)
  case sched_start
  show ?case by (simp add: sched_init_def)
next
  case (sched_next s t)
  from step_started [OF sched_next(2) sched_next(3)] show ?case .
qed

lemma started_range:
  assumes "sched_reachable succeeds n k s"
  shows "distinct (started s) \<and> set (started s) \<subseteq> {..<k}"
  using reachable_started [OF assms] reachable_holding [OF assms] by auto

lemma full_run_order:
  assumes "distinct xs" and "set xs \<subseteq> {..<k}" and "xs = ys @ rest" and "length ys = k"
  shows "rest = [] \<and> set ys = {..<(k::nat)}"
proof -
  from assms(1) have "card (set xs) = length xs" by (rule distinct_card)
  moreover from assms(2) have "card (set xs) \<le> card {..<k}" by (intro card_mono) simp_all
  ultimately have "length xs \<le> k" by simp
  with assms(3,4) have r: "rest = []" by simp
  with assms have "card (set xs) = card {..<k}" using \<open>card (set xs) = length xs\<close> by simp
  with assms(2) have "set xs = {..<k}" by (intro card_subset_eq) simp_all
  with r assms(3) show ?thesis by simp
qed

text \<open>
  C9, as the code has it. In every state that an execution of the scheduler with the
  ceiling \<open>max_concurrent\<close> can reach, at most \<open>max_concurrent\<close> worker invocations
  are in flight (and at most that many tasks are inside the \<open>async with\<close> block,
  sleeping included), and no task has entered the block twice. With \<open>max_concurrent = 1\<close>
  the tasks complete in the order in which they entered the block, and at most one task has
  entered it without having completed. When all tasks of a one-slot run have completed,
  every chunk has been processed once and, if every worker returned, the list returned
  holds the results in the order in which the tasks entered the block. That order is the
  event loop's; nothing makes it the order of the chunks.
\<close>

theorem bounded_concurrency:
  assumes "sched_reachable succeeds max_concurrent total_chunks s"
  shows "active s \<le> max_concurrent
     \<and> holding s \<le> max_concurrent
     \<and> (max_concurrent = 1 \<longrightarrow>
          (\<exists>rest. started s = completed s @ rest \<and> length rest \<le> 1 \<and> active s \<le> length rest))
     \<and> distinct (started s) \<and> set (started s) \<subseteq> {..<total_chunks}
     \<and> (max_concurrent = 1 \<and> length (completed s) = total_chunks \<longrightarrow>
          completed s = started s \<and> set (completed s) = {..<total_chunks})
     \<and> (max_concurrent = 1 \<and> length (completed s) = total_chunks \<and> length chunks = total_chunks
          \<and> (\<forall>i < total_chunks. succeeds i \<and> \<not> isl (process_func (chunks ! i) i total_chunks)) \<longrightarrow>
          process_chunks_with_rate_limit chunks process_func 1 (completed s)
            = Some (Inr (map (\<lambda>i. projr (process_func (chunks ! i) i total_chunks)) (started s))))"
proof -
  from reachable_holding [OF assms] have h: "holding s \<le> max_concurrent" by simp
  with active_le_holding [of s] have a: "active s \<le> max_concurrent" by simp
  have one: "max_concurrent = 1 \<longrightarrow>
          (\<exists>rest. started s = completed s @ rest \<and> length rest \<le> 1 \<and> active s \<le> length rest)"
  proof
    assume one: "max_concurrent = 1"
    with assms have inv: "serial_inv s" using reachable_serial by simp
    from reachable_holding [OF assms] one have sum: "sem_value s + holding s = 1" by simp
    from inv show "\<exists>rest. started s = completed s @ rest \<and> length rest \<le> 1 \<and> active s \<le> length rest"
      unfolding serial_inv_def
    proof
      assume "sem_value s = 1 \<and> started s = completed s
        \<and> (\<forall>j < length (phases s). phases s ! j \<noteq> Working \<and> phases s ! j \<noteq> Sleeping)"
      moreover from this sum have "holding s = 0" by simp
      with active_le_holding [of s] have "active s = 0" by simp
      ultimately show ?thesis by simp
    next
      assume "sem_value s = 0
          \<and> (\<exists>i < length (phases s). started s = completed s @ [i]
                \<and> (\<forall>j < length (phases s).
                      (phases s ! j = Working \<or> phases s ! j = Sleeping) = (j = i)))"
      then obtain i where "started s = completed s @ [i]" by blast
      moreover from sum active_le_holding [of s] have "active s \<le> 1" by simp
      ultimately show ?thesis by auto
    qed
  qed
  from started_range [OF assms]
  have d: "distinct (started s)" and r: "set (started s) \<subseteq> {..<total_chunks}" by simp_all
  have full: "max_concurrent = 1 \<and> length (completed s) = total_chunks \<longrightarrow>
          completed s = started s \<and> set (completed s) = {..<total_chunks}"
  proof
    assume f: "max_concurrent = 1 \<and> length (completed s) = total_chunks"
    with one obtain rest where st: "started s = completed s @ rest" by blast
    from f have "length (completed s) = total_chunks" ..
    from full_run_order [OF d r st this] st
    show "completed s = started s \<and> set (completed s) = {..<total_chunks}" by simp
  qed
  have res: "max_concurrent = 1 \<and> length (completed s) = total_chunks \<and> length chunks = total_chunks
          \<and> (\<forall>i < total_chunks. succeeds i \<and> \<not> isl (process_func (chunks ! i) i total_chunks)) \<longrightarrow>
          process_chunks_with_rate_limit chunks process_func 1 (completed s)
            = Some (Inr (map (\<lambda>i. projr (process_func (chunks ! i) i total_chunks)) (started s)))"
  proof
    assume f: "max_concurrent = 1 \<and> length (completed s) = total_chunks \<and> length chunks = total_chunks
          \<and> (\<forall>i < total_chunks. succeeds i \<and> \<not> isl (process_func (chunks ! i) i total_chunks))"
    with full have eq: "completed s = started s" by blast
    from f have len: "length chunks = total_chunks" by blast
    from f r have "\<forall>i \<in> set (started s). \<not> isl (process_func (chunks ! i) i total_chunks)" by auto
    then have "\<forall>x \<in> set (map (\<lambda>i. process_func (chunks ! i) i total_chunks) (started s)). \<not> isl x"
      by simp
    from collect_all_returned [OF this, of "[]"] eq len
    show "process_chunks_with_rate_limit chunks process_func 1 (completed s)
            = Some (Inr (map (\<lambda>i. projr (process_func (chunks ! i) i total_chunks)) (started s)))"
      by (simp add: process_chunks_with_rate_limit_def comp_def)
  qed
  from a h one d r full res show ?thesis by blast
qed

lemma second_task_running_reachable:
  "sched_reachable every_worker_returns 1 2 second_task_running"
proof -
  have "sched_step every_worker_returns (sched_init 1 2)
          ((sched_init 1 2)\<lparr>phases := (phases (sched_init 1 2))[1 := Working],
             sem_value := sem_value (sched_init 1 2) - 1,
             started := started (sched_init 1 2) @ [1]\<rparr>)"
    by (rule sched_step.acquire) (simp_all add: sched_init_def)
  then have "sched_step every_worker_returns (sched_init 1 2) second_task_running"
    by (simp add: sched_init_def second_task_running_def numeral_2_eq_2)
  with sched_start show ?thesis by (rule sched_next)
qed

lemma second_task_first_reachable:
  "sched_reachable every_worker_returns 1 2 second_task_first"
proof -
  let ?s1 = "second_task_running"
  let ?s2 = "\<lparr>phases = [Waiting, Sleeping], sem_value = 0, started = [1], completed = []\<rparr>"
  let ?s3 = "\<lparr>phases = [Waiting, Done], sem_value = 1, started = [1], completed = [1]\<rparr>"
  let ?s4 = "\<lparr>phases = [Working, Done], sem_value = 0, started = [1, 0], completed = [1]\<rparr>"
  let ?s5 = "\<lparr>phases = [Sleeping, Done], sem_value = 0, started = [1, 0], completed = [1]\<rparr>"
  have "sched_step every_worker_returns ?s1 (?s1\<lparr>phases := (phases ?s1)[1 := Sleeping]\<rparr>)"
    by (rule sched_step.worker_returns) (simp_all add: second_task_running_def every_worker_returns_def)
  then have st2: "sched_step every_worker_returns ?s1 ?s2" by (simp add: second_task_running_def)
  have "sched_step every_worker_returns ?s2
          (?s2\<lparr>phases := (phases ?s2)[1 := Done], sem_value := sem_value ?s2 + 1,
                completed := completed ?s2 @ [1]\<rparr>)"
    by (rule sched_step.wake_and_release) simp_all
  then have st3: "sched_step every_worker_returns ?s2 ?s3" by simp
  have "sched_step every_worker_returns ?s3
          (?s3\<lparr>phases := (phases ?s3)[0 := Working], sem_value := sem_value ?s3 - 1,
                started := started ?s3 @ [0]\<rparr>)"
    by (rule sched_step.acquire) simp_all
  then have st4: "sched_step every_worker_returns ?s3 ?s4" by simp
  have "sched_step every_worker_returns ?s4 (?s4\<lparr>phases := (phases ?s4)[0 := Sleeping]\<rparr>)"
    by (rule sched_step.worker_returns) (simp_all add: every_worker_returns_def)
  then have st5: "sched_step every_worker_returns ?s4 ?s5" by simp
  have "sched_step every_worker_returns ?s5
          (?s5\<lparr>phases := (phases ?s5)[0 := Done], sem_value := sem_value ?s5 + 1,
                completed := completed ?s5 @ [0]\<rparr>)"
    by (rule sched_step.wake_and_release) simp_all
  then have st6: "sched_step every_worker_returns ?s5 second_task_first"
    by (simp add: second_task_first_def)
  from second_task_running_reachable st2 have "sched_reachable every_worker_returns 1 2 ?s2"
    by (rule sched_next)
  from this st3 have "sched_reachable every_worker_returns 1 2 ?s3" by (rule sched_next)
  from this st4 have "sched_reachable every_worker_returns 1 2 ?s4" by (rule sched_next)
  from this st5 have "sched_reachable every_worker_returns 1 2 ?s5" by (rule sched_next)
  from this st6 show ?thesis by (rule sched_next)
qed

theorem bounded_concurrency_witness:
  "sched_reachable every_worker_returns 1 2 second_task_first
   \<and> active second_task_first \<le> 1
   \<and> holding second_task_first \<le> 1
   \<and> completed second_task_first = started second_task_first
   \<and> set (completed second_task_first) = {..<2}
   \<and> process_chunks_with_rate_limit [''first'', ''second''] worker_echoes 1 (completed second_task_first)
       = Some (Inr [''second'', ''first''])"
proof -
  note inst = bounded_concurrency [OF second_task_first_reachable, of "[''first'', ''second'']" worker_echoes]
  have l: "length (completed second_task_first) = 2" by (simp add: second_task_first_def)
  have w: "\<forall>i < 2. every_worker_returns i \<and> \<not> isl (worker_echoes ([''first'', ''second''] ! i) i 2)"
    by (simp add: every_worker_returns_def worker_echoes_def)
  from inst l have c: "completed second_task_first = started second_task_first
      \<and> set (completed second_task_first) = {..<2}" by blast
  from l w have "(1::nat) = 1 \<and> length (completed second_task_first) = 2
      \<and> length [''first'', ''second''] = 2
      \<and> (\<forall>i < 2. every_worker_returns i \<and> \<not> isl (worker_echoes ([''first'', ''second''] ! i) i 2))"
    by simp
  with inst have "process_chunks_with_rate_limit [''first'', ''second''] worker_echoes 1 (completed second_task_first)
            = Some (Inr (map (\<lambda>i. projr (worker_echoes ([''first'', ''second''] ! i) i 2)) (started second_task_first)))"
    by blast
  then have p: "process_chunks_with_rate_limit [''first'', ''second''] worker_echoes 1 (completed second_task_first)
       = Some (Inr [''second'', ''first''])"
    by (simp add: worker_echoes_def second_task_first_def)
  from inst second_task_first_reachable c p show ?thesis by blast
qed

text \<open>
  The claim as stated fails for one slot: with two chunks, the task of the second chunk may
  take the semaphore first, and the list returned then holds the second result before the
  first, which a serial execution over the chunks does not give.
\<close>

theorem one_slot_order_counterexample:
  "sched_reachable every_worker_returns 1 2 second_task_first
   \<and> completed second_task_first = [1, 0]
   \<and> process_chunks_with_rate_limit [''first'', ''second''] worker_echoes 1 (completed second_task_first)
       = Some (Inr [''second'', ''first''])
   \<and> serial_execution [''first'', ''second''] worker_echoes = Inr [''first'', ''second'']"
proof -
  have c: "completed second_task_first = [1, 0]" by (simp add: second_task_first_def)
  have p: "process_chunks_with_rate_limit [''first'', ''second''] worker_echoes 1 (completed second_task_first)
       = Some (Inr [''second'', ''first''])"
    by (simp add: process_chunks_with_rate_limit_def worker_echoes_def second_task_first_def)
  have s: "serial_execution [''first'', ''second''] worker_echoes = Inr [''first'', ''second'']"
    by (simp add: serial_execution_def worker_echoes_def upt_rec)
  from second_task_first_reachable c p s show ?thesis by blast
qed

section \<open>A failing worker\<close>

lemma collect_first_failure:
  "\<forall>x \<in> set pre. \<not> isl x \<Longrightarrow> collect_results (pre @ Inl e # post) acc = Inl e"
proof (induction pre arbitrary: acc)
  case Nil then show ?case by simp
next
  case (Cons x pre)
  then obtain r where "x = Inr r" by (cases x) auto
  with Cons show ?case by simp
qed

lemma collect_some_failure:
  "\<exists>x \<in> set xs. isl x \<Longrightarrow> \<exists>e. collect_results xs acc = Inl e \<and> Inl e \<in> set xs"
proof (induction xs arbitrary: acc)
  case Nil then show ?case by simp
next
  case (Cons x xs)
  show ?case
  proof (cases x)
    case (Inl e) then show ?thesis by simp
  next
    case (Inr r)
    with Cons.prems have "\<exists>x \<in> set xs. isl x" by auto
    from Cons.IH [OF this, of "acc @ [r]"] Inr show ?thesis by auto
  qed
qed

lemma step_moves_one_task:
  assumes "sched_step succeeds s t"
  shows "\<exists>i < length (phases s). \<forall>j. j \<noteq> i \<longrightarrow> phases t ! j = phases s ! j"
  using assms by (cases rule: sched_step.cases) auto

text \<open>
  C3, as the code has it. With a positive ceiling, the scheduler returns the list of the
  workers' results, in completion order, when every worker returns. When a worker raises,
  the scheduler puts no value in its place: the exception of the first failed task in
  completion order leaves the scheduler, and no list is returned. A step of one task,
  a failure included, changes the phase of no other task: no sibling is cancelled.
\<close>

theorem worker_failure_propagates:
  assumes "0 < max_concurrent"
  shows "((\<forall>i \<in> set completion_order. \<not> isl (process_func (chunks ! i) i (length chunks))) \<longrightarrow>
           process_chunks_with_rate_limit chunks process_func max_concurrent completion_order
             = Some (Inr (map (\<lambda>i. projr (process_func (chunks ! i) i (length chunks))) completion_order)))
     \<and> (\<forall>pre i post e. completion_order = pre @ i # post
           \<and> (\<forall>j \<in> set pre. \<not> isl (process_func (chunks ! j) j (length chunks)))
           \<and> process_func (chunks ! i) i (length chunks) = Inl e \<longrightarrow>
           process_chunks_with_rate_limit chunks process_func max_concurrent completion_order
             = Some (Inl e))
     \<and> (\<forall>succeeds s t. sched_step succeeds s t \<longrightarrow>
           (\<exists>i < length (phases s). \<forall>j. j \<noteq> i \<longrightarrow> phases t ! j = phases s ! j))"
proof -
  let ?f = "\<lambda>i. process_func (chunks ! i) i (length chunks)"
  have run: "process_chunks_with_rate_limit chunks process_func max_concurrent completion_order
      = Some (collect_results (map ?f completion_order) [])"
    using assms by (simp add: process_chunks_with_rate_limit_def)
  have a: "(\<forall>i \<in> set completion_order. \<not> isl (?f i)) \<longrightarrow>
           process_chunks_with_rate_limit chunks process_func max_concurrent completion_order
             = Some (Inr (map (\<lambda>i. projr (?f i)) completion_order))"
  proof
    assume "\<forall>i \<in> set completion_order. \<not> isl (?f i)"
    then have "\<forall>x \<in> set (map ?f completion_order). \<not> isl x" by simp
    from collect_all_returned [OF this, of "[]"] run
    show "process_chunks_with_rate_limit chunks process_func max_concurrent completion_order
             = Some (Inr (map (\<lambda>i. projr (?f i)) completion_order))"
      by (simp add: comp_def)
  qed
  have b: "\<forall>pre i post e. completion_order = pre @ i # post
           \<and> (\<forall>j \<in> set pre. \<not> isl (?f j)) \<and> ?f i = Inl e \<longrightarrow>
           process_chunks_with_rate_limit chunks process_func max_concurrent completion_order
             = Some (Inl e)"
  proof (intro allI impI)
    fix pre i post e
    assume h: "completion_order = pre @ i # post \<and> (\<forall>j \<in> set pre. \<not> isl (?f j)) \<and> ?f i = Inl e"
    then have "\<forall>x \<in> set (map ?f pre). \<not> isl x" by simp
    from collect_first_failure [OF this, of e "map ?f post" "[]"] h run
    show "process_chunks_with_rate_limit chunks process_func max_concurrent completion_order
             = Some (Inl e)" by simp
  qed
  from a b step_moves_one_task show ?thesis by blast
qed

theorem worker_failure_propagates_witness:
  "(0::int) < 2
   \<and> process_chunks_with_rate_limit [''a'', ''b'', ''c''] second_worker_raises 2 [0, 2, 1]
       = Some (Inl ''boom'')
   \<and> process_chunks_with_rate_limit [''a''] second_worker_raises 2 [0] = Some (Inr [''a''])"
proof -
  have pos: "(0::int) < 2" by simp
  note inst = worker_failure_propagates [OF pos, of _ second_worker_raises]
  have "[0, 2, 1] = [0, 2] @ (1::nat) # []
        \<and> (\<forall>j \<in> set [0, 2 :: nat]. \<not> isl (second_worker_raises ([''a'', ''b'', ''c''] ! j) j (length [''a'', ''b'', ''c''])))
        \<and> second_worker_raises ([''a'', ''b'', ''c''] ! 1) 1 (length [''a'', ''b'', ''c'']) = Inl ''boom''"
    by (simp add: second_worker_raises_def)
  with inst [of "[0, 2, 1]" "[''a'', ''b'', ''c'']"] have f: "process_chunks_with_rate_limit [''a'', ''b'', ''c''] second_worker_raises 2 [0, 2, 1]
       = Some (Inl ''boom'')" by blast
  have "\<forall>i \<in> set [0::nat]. \<not> isl (second_worker_raises ([''a''] ! i) i (length [''a'']))"
    by (simp add: second_worker_raises_def)
  with inst [of "[0]" "[''a'']"] have "process_chunks_with_rate_limit [''a''] second_worker_raises 2 [0]
       = Some (Inr (map (\<lambda>i. projr (second_worker_raises ([''a''] ! i) i (length [''a'']))) [0]))"
    by blast
  then have g: "process_chunks_with_rate_limit [''a''] second_worker_raises 2 [0] = Some (Inr [''a''])"
    by (simp add: second_worker_raises_def)
  from pos f g show ?thesis by blast
qed

text \<open>
  The claim as stated fails: with two chunks of which the second worker raises, the
  scheduler raises that exception instead of returning a list that holds a fallback.
\<close>

theorem worker_failure_fallback_counterexample:
  "process_chunks_with_rate_limit [''a'', ''b''] second_worker_raises 2 [0, 1] = Some (Inl ''boom'')"
  by (simp add: process_chunks_with_rate_limit_def second_worker_raises_def)

section \<open>Enhancement and the locally built tree\<close>

lemma json_strs_map: "json_strs (map JStr xs) = Some xs"
  by (induction xs) (simp_all add: json_str_def)

lemma box_roundtrip:
  "box_of_dict (JDict [(''x'', JFloat (box_x b)), (''y'', JFloat (box_y b)),
                       (''width'', JFloat (box_width b)), (''height'', JFloat (box_height b))])
   = Some b"
  by (simp add: box_of_dict_def json_float_def)

lemma grounding_roundtrip: "grounding_of_dict (grounding_dict g) = Some g"
  by (simp add: grounding_of_dict_def grounding_dict_def box_roundtrip json_float_def)

lemma element_roundtrip: "element_of_dict (element_dict e) = Some e"
proof -
  have c: "(case (case elem_content e of ContentStr s \<Rightarrow> JStr s | ContentDict d \<Rightarrow> JDict d) of
              JStr s \<Rightarrow> Some (ContentStr s) | JDict cd \<Rightarrow> Some (ContentDict cd) | _ \<Rightarrow> None)
           = Some (elem_content e)"
    by (cases "elem_content e") simp_all
  have p: "(case (case parent_id e of None \<Rightarrow> JNull | Some p \<Rightarrow> JStr p) of
              JNull \<Rightarrow> Some None | JStr s \<Rightarrow> Some (Some s) | _ \<Rightarrow> None)
           = Some (parent_id e)"
    by (cases "parent_id e") simp_all
  have co: "(case (case corrections e of None \<Rightarrow> JNull | Some c \<Rightarrow> JDict c) of
              JNull \<Rightarrow> Some None | JDict cd \<Rightarrow> Some (Some cd) | _ \<Rightarrow> None)
           = Some (corrections e)"
    by (cases "corrections e") simp_all
  show ?thesis
    by (simp add: element_of_dict_def element_dict_def json_str_def json_float_def
          grounding_roundtrip json_strs_map c p co)
qed

lemma convert_roundtrip:
  "\<forall>e \<in> set es. make_element (to_dict e) = Some e \<Longrightarrow>
     convert_elements make_element (map to_dict es) = Some es"
  by (induction es) simp_all

lemma convert_rejects:
  "\<exists>j \<in> set js. make_element j = None \<Longrightarrow> convert_elements make_element js = None"
proof (induction js)
  case Nil then show ?case by simp
next
  case (Cons a js)
  show ?case
  proof (cases "make_element a")
    case None then show ?thesis by simp
  next
    case (Some x)
    with Cons.prems have "\<exists>j \<in> set js. make_element j = None" by auto
    from Cons.IH [OF this] Some show ?thesis by simp
  qed
qed

lemma convert_accepts:
  "convert_elements make_element js = Some es \<Longrightarrow>
     (\<forall>j \<in> set js. make_element j \<noteq> None) \<and> map (\<lambda>j. Some j) es = map make_element js"
  by (induction js arbitrary: es) (auto split: option.splits)

lemma chunk_fold_concat:
  "foldl (chunk_step m) (chunks, cur, pg) es = (chunks', cur', pg') \<Longrightarrow>
     concat chunks' @ cur' = concat chunks @ cur @ es"
proof (induction es arbitrary: chunks cur pg)
  case Nil then show ?case by simp
next
  case (Cons e es)
  obtain c1 u1 p1 where st: "chunk_step m (chunks, cur, pg) e = (c1, u1, p1)"
    by (cases "chunk_step m (chunks, cur, pg) e")
  then have one: "concat c1 @ u1 = concat chunks @ cur @ [e]"
    by (auto simp: chunk_step_def Let_def split: if_splits)
  from Cons.prems st have "foldl (chunk_step m) (c1, u1, p1) es = (chunks', cur', pg')" by simp
  from Cons.IH [OF this] one show ?case by simp
qed

lemma chunk_elements_concat: "concat (chunk_elements es m) = es"
proof (cases "int (length es) \<le> m")
  case True then show ?thesis by (simp add: chunk_elements_def)
next
  case False
  obtain chunks cur pg where f: "foldl (chunk_step m) ([], [], JNull) es = (chunks, cur, pg)"
    by (cases "foldl (chunk_step m) ([], [], JNull) es")
  from chunk_fold_concat [OF f] have "concat chunks @ cur = es" by simp
  with False f show ?thesis by (auto simp: chunk_elements_def)
qed

lemma chunk_elements_small: "length es \<le> 20 \<Longrightarrow> chunk_elements es 20 = [es]"
  by (simp add: chunk_elements_def)

lemma passes_through_chunk:
  "passes_through reply \<Longrightarrow> process_structure_chunk reply chunk = Inr (JList chunk)"
  by (cases reply) (auto simp: passes_through_def process_structure_chunk_def split: json.splits)

lemma enhance_returns: "\<exists>enhanced. enhance_document_structure has_key llm order elements = Some enhanced"
  by (auto simp: enhance_document_structure_def process_chunks_with_rate_limit_def
        split: sum.splits)

lemma enhance_no_key: "enhance_document_structure False llm order elements = Some elements"
  by (simp add: enhance_document_structure_def)

lemma enhance_call_fails:
  assumes "i \<in> set order" and "llm (chunk_elements elements 20 ! i) i (length (chunk_elements elements 20)) = CallFails e"
  shows "enhance_document_structure True llm order elements = Some elements"
proof -
  let ?chunks = "chunk_elements elements 20"
  let ?f = "\<lambda>i. process_structure_chunk (llm (?chunks ! i) i (length ?chunks)) (?chunks ! i)"
  from assms have "isl (?f i)" by (simp add: process_structure_chunk_def)
  with assms(1) have "\<exists>x \<in> set (map ?f order). isl x" by auto
  from collect_some_failure [OF this, of "[]"] obtain e' where
    "collect_results (map ?f order) [] = Inl e'" by blast
  then show ?thesis
    by (simp add: enhance_document_structure_def process_chunks_with_rate_limit_def)
qed

lemma enhance_passes_through:
  assumes "\<forall>i \<in> set order. passes_through (llm (chunk_elements elements 20 ! i) i (length (chunk_elements elements 20)))"
  shows "enhance_document_structure True llm order elements
           = Some (concat (map (\<lambda>i. chunk_elements elements 20 ! i) order))"
proof -
  let ?chunks = "chunk_elements elements 20"
  let ?f = "\<lambda>i. process_structure_chunk (llm (?chunks ! i) i (length ?chunks)) (?chunks ! i)"
  from assms have eq: "\<forall>i \<in> set order. ?f i = Inr (JList (?chunks ! i))"
    by (simp add: passes_through_chunk)
  then have "\<forall>x \<in> set (map ?f order). \<not> isl x" by simp
  from collect_all_returned [OF this, of "[]"]
  have "collect_results (map ?f order) [] = Inr (map (\<lambda>i. projr (?f i)) order)"
    by (simp add: comp_def)
  also from eq have "map (\<lambda>i. projr (?f i)) order = map (\<lambda>i. JList (?chunks ! i)) order"
    by simp
  finally have "collect_results (map ?f order) [] = Inr (map (\<lambda>i. JList (?chunks ! i)) order)" .
  then show ?thesis
    by (simp add: enhance_document_structure_def process_chunks_with_rate_limit_def
          combine_chunks_def comp_def)
qed

lemma enhance_passes_through_in_order:
  assumes "\<forall>i < length (chunk_elements elements 20).
             passes_through (llm (chunk_elements elements 20 ! i) i (length (chunk_elements elements 20)))"
  shows "enhance_document_structure True llm [0 ..< length (chunk_elements elements 20)] elements
           = Some elements"
proof -
  from assms have "\<forall>i \<in> set [0 ..< length (chunk_elements elements 20)].
      passes_through (llm (chunk_elements elements 20 ! i) i (length (chunk_elements elements 20)))"
    by simp
  from enhance_passes_through [of "[0 ..< length (chunk_elements elements 20)]" llm elements, OF this]
  show ?thesis by (simp add: map_nth chunk_elements_concat)
qed

lemma apply_enhancement_same:
  assumes "\<forall>e \<in> set local. make_element (element_dict e) = Some e"
  shows "fst (apply_enhancement make_element local (map element_dict local)) = local"
  using convert_roundtrip [OF assms] by (simp add: apply_enhancement_def)

lemma apply_enhancement_empty: "fst (apply_enhancement make_element local []) = local"
  by (simp add: apply_enhancement_def)

lemma apply_enhancement_rejected:
  "\<exists>j \<in> set enhanced. make_element j = None \<Longrightarrow>
     fst (apply_enhancement make_element local enhanced) = local"
  using convert_rejects [of enhanced make_element] by (simp add: apply_enhancement_def)

lemma apply_enhancement_replaced:
  assumes "fst (apply_enhancement make_element local enhanced) \<noteq> local"
  shows "enhanced \<noteq> [] \<and> (\<forall>j \<in> set enhanced. make_element j \<noteq> None)
     \<and> map Some (fst (apply_enhancement make_element local enhanced)) = map make_element enhanced"
proof -
  from assms have ne: "enhanced \<noteq> []" by (auto simp: apply_enhancement_def)
  from assms ne obtain es where es: "convert_elements make_element enhanced = Some es"
    by (cases "convert_elements make_element enhanced") (auto simp: apply_enhancement_def)
  with assms ne have "fst (apply_enhancement make_element local enhanced) = es"
    by (auto simp: apply_enhancement_def split: if_splits)
  with convert_accepts [OF es] ne show ?thesis by simp
qed

lemma convert_known_dicts:
  assumes rt: "\<forall>e \<in> set local. make_element (element_dict e) = Some e"
  shows "\<forall>j \<in> set js. j \<in> element_dict ` set local \<Longrightarrow>
     \<exists>es. convert_elements make_element js = Some es \<and> map element_dict es = js"
proof (induction js)
  case Nil then show ?case by simp
next
  case (Cons j js)
  from Cons.prems obtain e where e: "e \<in> set local" "j = element_dict e" by auto
  with rt have m: "make_element j = Some e" by simp
  from Cons.prems have "\<forall>j \<in> set js. j \<in> element_dict ` set local" by simp
  from Cons.IH [OF this] obtain es where "convert_elements make_element js = Some es"
    "map element_dict es = js" by blast
  with m e(2) show ?case by simp
qed

lemma nth_chunk_subset:
  "i < length (chunk_elements ds m) \<Longrightarrow> set (chunk_elements ds m ! i) \<subseteq> set ds"
proof -
  assume "i < length (chunk_elements ds m)"
  then have "chunk_elements ds m ! i \<in> set (chunk_elements ds m)" by simp
  then have "set (chunk_elements ds m ! i) \<subseteq> set (concat (chunk_elements ds m))" by auto
  then show ?thesis by (simp add: chunk_elements_concat)
qed

lemma structure_elements_eq:
  "enhance_document_structure has_key llm order (map element_dict (build_elements raws)) = Some enhanced \<Longrightarrow>
   structure_elements make_element has_key llm order raws
     = Some (fst (apply_enhancement make_element (build_elements raws) enhanced),
             StructuredInto (length (build_elements raws))
               # snd (apply_enhancement make_element (build_elements raws) enhanced))"
  by (simp add: structure_elements_def Let_def split: prod.splits)

text \<open>
  C7, as the code has it. \<open>make_element\<close> stands for \<open>ExtractedElement(**elem)\<close>;
  it is assumed to read back the dict of every element of the locally built tree. The
  structuring step always returns, and it keeps the locally built tree unchanged when there
  is no API key, when the call of the service raises for some chunk, when the enhanced list
  is empty, and when \<open>make_element\<close> rejects one of the enhanced dicts. When the output
  for a chunk does not parse (or parses to something that is neither a list nor a dict with
  \<open>elements\<close>), that chunk is handed back as it was: if this happens for every chunk, the
  result is the chunks of the local tree in the order in which they completed, which is the
  local tree itself when they complete in the order of submission (always so for at most
  20 elements, one chunk). Whenever the result differs from the local tree, the enhanced
  list is not empty, \<open>make_element\<close> accepts each of its dicts, and the result is the list
  of the elements made.
\<close>

theorem enhancement_keeps_local_tree:
  assumes roundtrip: "\<forall>e \<in> set (build_elements raw_elements). make_element (element_dict e) = Some e"
  shows "\<exists>final lines enhanced.
       structure_elements make_element has_api_key llm completion_order raw_elements = Some (final, lines)
     \<and> enhance_document_structure has_api_key llm completion_order
           (map element_dict (build_elements raw_elements)) = Some enhanced
     \<and> (\<not> has_api_key \<longrightarrow> final = build_elements raw_elements)
     \<and> ((\<exists>i \<in> set completion_order. \<exists>e.
            llm (chunk_elements (map element_dict (build_elements raw_elements)) 20 ! i) i
                (length (chunk_elements (map element_dict (build_elements raw_elements)) 20)) = CallFails e)
          \<longrightarrow> final = build_elements raw_elements)
     \<and> (enhanced = [] \<longrightarrow> final = build_elements raw_elements)
     \<and> ((\<exists>j \<in> set enhanced. make_element j = None) \<longrightarrow> final = build_elements raw_elements)
     \<and> (has_api_key
          \<and> (\<forall>i < length (chunk_elements (map element_dict (build_elements raw_elements)) 20).
                passes_through
                  (llm (chunk_elements (map element_dict (build_elements raw_elements)) 20 ! i) i
                     (length (chunk_elements (map element_dict (build_elements raw_elements)) 20))))
          \<and> set completion_order = {..< length (chunk_elements (map element_dict (build_elements raw_elements)) 20)}
          \<longrightarrow> map element_dict final
                = concat (map (\<lambda>i. chunk_elements (map element_dict (build_elements raw_elements)) 20 ! i)
                            completion_order)
              \<and> (completion_order = [0 ..< length (chunk_elements (map element_dict (build_elements raw_elements)) 20)]
                   \<longrightarrow> final = build_elements raw_elements))
     \<and> (final \<noteq> build_elements raw_elements \<longrightarrow>
           enhanced \<noteq> [] \<and> (\<forall>j \<in> set enhanced. make_element j \<noteq> None)
           \<and> map Some final = map make_element enhanced)"
proof -
  let ?local = "build_elements raw_elements"
  let ?dicts = "map element_dict ?local"
  let ?chunks = "chunk_elements ?dicts 20"
  obtain enhanced where enh: "enhance_document_structure has_api_key llm completion_order ?dicts = Some enhanced"
    using enhance_returns by blast
  let ?final = "fst (apply_enhancement make_element ?local enhanced)"
  let ?lines = "StructuredInto (length ?local) # snd (apply_enhancement make_element ?local enhanced)"
  have run: "structure_elements make_element has_api_key llm completion_order raw_elements
               = Some (?final, ?lines)"
    using enh by (rule structure_elements_eq)
  have same: "fst (apply_enhancement make_element ?local ?dicts) = ?local"
    using roundtrip by (rule apply_enhancement_same)
  have c1: "\<not> has_api_key \<longrightarrow> ?final = ?local"
  proof
    assume "\<not> has_api_key"
    with enh have "enhanced = ?dicts" by (simp add: enhance_no_key)
    with same show "?final = ?local" by simp
  qed
  have c2: "(\<exists>i \<in> set completion_order. \<exists>e. llm (?chunks ! i) i (length ?chunks) = CallFails e)
          \<longrightarrow> ?final = ?local"
  proof
    assume "\<exists>i \<in> set completion_order. \<exists>e. llm (?chunks ! i) i (length ?chunks) = CallFails e"
    then obtain i e where i: "i \<in> set completion_order"
      and f: "llm (?chunks ! i) i (length ?chunks) = CallFails e" by blast
    show "?final = ?local"
    proof (cases has_api_key)
      case True
      with enhance_call_fails [of i completion_order llm ?dicts e, OF i f] enh have "enhanced = ?dicts" by simp
      with same show ?thesis by simp
    next
      case False
      with c1 show ?thesis by simp
    qed
  qed
  have c3: "enhanced = [] \<longrightarrow> ?final = ?local"
    by (simp add: apply_enhancement_empty)
  have c4: "(\<exists>j \<in> set enhanced. make_element j = None) \<longrightarrow> ?final = ?local"
    using apply_enhancement_rejected by blast
  have c5: "has_api_key
          \<and> (\<forall>i < length ?chunks. passes_through (llm (?chunks ! i) i (length ?chunks)))
          \<and> set completion_order = {..< length ?chunks}
          \<longrightarrow> map element_dict ?final = concat (map (\<lambda>i. ?chunks ! i) completion_order)
              \<and> (completion_order = [0 ..< length ?chunks] \<longrightarrow> ?final = ?local)"
  proof (intro impI)
    assume h: "has_api_key
          \<and> (\<forall>i < length ?chunks. passes_through (llm (?chunks ! i) i (length ?chunks)))
          \<and> set completion_order = {..< length ?chunks}"
    then have "\<forall>i \<in> set completion_order. passes_through (llm (?chunks ! i) i (length ?chunks))"
      by simp
    from enhance_passes_through [of completion_order llm ?dicts, OF this] h enh
    have e: "enhanced = concat (map (\<lambda>i. ?chunks ! i) completion_order)" by simp
    have known: "\<forall>j \<in> set enhanced. j \<in> element_dict ` set ?local"
    proof
      fix j assume "j \<in> set enhanced"
      with e obtain i where "i \<in> set completion_order" "j \<in> set (?chunks ! i)" by auto
      with h nth_chunk_subset [of i ?dicts 20] have "j \<in> set ?dicts" by auto
      then show "j \<in> element_dict ` set ?local" by simp
    qed
    from convert_known_dicts [OF roundtrip known] obtain es where
      es: "convert_elements make_element enhanced = Some es" "map element_dict es = enhanced" by blast
    have first: "map element_dict ?final = enhanced"
    proof (cases "enhanced = []")
      case True
      with e h have "\<forall>i < length ?chunks. ?chunks ! i = []" by auto
      then have "\<forall>c \<in> set ?chunks. c = []" by (auto simp: in_set_conv_nth)
      then have "concat ?chunks = []" by (induction ?chunks) auto
      then have "?dicts = []" by (simp add: chunk_elements_concat)
      with True show ?thesis by (simp add: apply_enhancement_def)
    next
      case False
      with es have "es \<noteq> []" by auto
      with False es show ?thesis by (simp add: apply_enhancement_def)
    qed
    have second: "completion_order = [0 ..< length ?chunks] \<longrightarrow> ?final = ?local"
    proof
      assume "completion_order = [0 ..< length ?chunks]"
      with e have "enhanced = ?dicts" by (simp add: map_nth chunk_elements_concat)
      with same show "?final = ?local" by simp
    qed
    from first e second
    show "map element_dict ?final = concat (map (\<lambda>i. ?chunks ! i) completion_order)
              \<and> (completion_order = [0 ..< length ?chunks] \<longrightarrow> ?final = ?local)"
      by simp
  qed
  have c6: "?final \<noteq> ?local \<longrightarrow>
           enhanced \<noteq> [] \<and> (\<forall>j \<in> set enhanced. make_element j \<noteq> None)
           \<and> map Some ?final = map make_element enhanced"
    using apply_enhancement_replaced by blast
  from run enh c1 c2 c3 c4 c5 c6 show ?thesis by blast
qed

theorem enhancement_keeps_local_tree_witness:
  "\<exists>lines. structure_elements element_of_dict True never_json [0] [text_fragment None ''a'']
             = Some (build_elements [text_fragment None ''a''], lines)"
proof -
  let ?raws = "[text_fragment None ''a'']"
  let ?chunks = "chunk_elements (map element_dict (build_elements ?raws)) 20"
  have rt: "\<forall>e \<in> set (build_elements ?raws). element_of_dict (element_dict e) = Some e"
    by (simp add: element_roundtrip)
  have "length (build_elements ?raws) = 2"
    by (simp add: build_elements_def group_by_page_def page_of_def get_or_def text_fragment_def
          file_fragment_def empty_groups_def structure_page_def page_texts_def page_tables_def
          enumerate_eq_zip)
  then have one: "?chunks = [map element_dict (build_elements ?raws)]"
    by (simp add: chunk_elements_small)
  then have len: "length ?chunks = 1" by simp
  have pass: "\<forall>i < length ?chunks. passes_through (never_json (?chunks ! i) i (length ?chunks))"
    by (simp add: never_json_def passes_through_def)
  have ord: "set [0::nat] = {..< length ?chunks}" "[0::nat] = [0 ..< length ?chunks]"
    using len by auto
  from enhancement_keeps_local_tree [OF rt, of True never_json "[0]"]
  obtain final lines where
    run: "structure_elements element_of_dict True never_json [0] ?raws = Some (final, lines)"
    and c5: "True \<and> (\<forall>i < length ?chunks. passes_through (never_json (?chunks ! i) i (length ?chunks)))
          \<and> set [0::nat] = {..< length ?chunks}
          \<longrightarrow> map element_dict final = concat (map (\<lambda>i. ?chunks ! i) [0])
              \<and> ([0::nat] = [0 ..< length ?chunks] \<longrightarrow> final = build_elements ?raws)"
    by (elim exE conjE)
  from c5 pass ord have "final = build_elements ?raws" by blast
  with run show ?thesis by blast
qed

text \<open>
  The claim as stated fails for unparseable output on a tree of more than 20 elements.
  The scheduler returns the chunks in completion order, and the tasks are started from a
  set of coroutine objects, in no particular order: with one slot and two chunks the second
  chunk can complete first. Then 21 local elements come back with the last one in front:
  the structuring step replaces the locally built list by a reordered one.
\<close>

theorem enhancement_reorders_counterexample:
  "map_option (map elem_id \<circ> fst)
     (structure_elements element_of_dict True never_json [1, 0] twenty_texts)
   = Some [''text_1_19'', ''page_1'', ''text_1_0'', ''text_1_1'', ''text_1_2'', ''text_1_3'',
           ''text_1_4'', ''text_1_5'', ''text_1_6'', ''text_1_7'', ''text_1_8'', ''text_1_9'',
           ''text_1_10'', ''text_1_11'', ''text_1_12'', ''text_1_13'', ''text_1_14'',
           ''text_1_15'', ''text_1_16'', ''text_1_17'', ''text_1_18'']
   \<and> map elem_id (build_elements twenty_texts)
     = [''page_1'', ''text_1_0'', ''text_1_1'', ''text_1_2'', ''text_1_3'',
           ''text_1_4'', ''text_1_5'', ''text_1_6'', ''text_1_7'', ''text_1_8'', ''text_1_9'',
           ''text_1_10'', ''text_1_11'', ''text_1_12'', ''text_1_13'', ''text_1_14'',
           ''text_1_15'', ''text_1_16'', ''text_1_17'', ''text_1_18'', ''text_1_19'']
   \<and> sched_reachable every_worker_returns 1 2 second_task_first
   \<and> completed second_task_first = [1, 0]"
proof -
  have a: "map_option (map elem_id \<circ> fst)
     (structure_elements element_of_dict True never_json [1, 0] twenty_texts)
   = Some [''text_1_19'', ''page_1'', ''text_1_0'', ''text_1_1'', ''text_1_2'', ''text_1_3'',
           ''text_1_4'', ''text_1_5'', ''text_1_6'', ''text_1_7'', ''text_1_8'', ''text_1_9'',
           ''text_1_10'', ''text_1_11'', ''text_1_12'', ''text_1_13'', ''text_1_14'',
           ''text_1_15'', ''text_1_16'', ''text_1_17'', ''text_1_18'']"
    by code_simp
  have b: "map elem_id (build_elements twenty_texts)
     = [''page_1'', ''text_1_0'', ''text_1_1'', ''text_1_2'', ''text_1_3'',
           ''text_1_4'', ''text_1_5'', ''text_1_6'', ''text_1_7'', ''text_1_8'', ''text_1_9'',
           ''text_1_10'', ''text_1_11'', ''text_1_12'', ''text_1_13'', ''text_1_14'',
           ''text_1_15'', ''text_1_16'', ''text_1_17'', ''text_1_18'', ''text_1_19'']"
    by code_simp
  have c: "completed second_task_first = [1, 0]" by (simp add: second_task_first_def)
  from a b second_task_first_reachable c show ?thesis by blast
qed

section \<open>A failure of the extractor\<close>

lemma parse_failure_store:
  assumes "results st tid = Some r" and "transaction_id r = tid"
  shows "results (snd (parse_step (Inl e) clock disk_ok
                   (new_state\<lparr>s_transaction_id := tid, s_file_path := fp, s_filename := name\<rparr>) st)) tid
         = Some (r\<lparr>status := FAILED, updated_at := clock FAILED,
                  processing_log := processing_log r @ (if e \<noteq> [] then [StatusMessage (clock FAILED) e] else [])\<rparr>)
       \<and> s_status (fst (parse_step (Inl e) clock disk_ok
                   (new_state\<lparr>s_transaction_id := tid, s_file_path := fp, s_filename := name\<rparr>) st)) = FAILED
       \<and> (disk_ok FAILED \<longrightarrow>
            files (snd (parse_step (Inl e) clock disk_ok
                   (new_state\<lparr>s_transaction_id := tid, s_file_path := fp, s_filename := name\<rparr>) st)) tid
            = Some (Snapshot (r\<lparr>status := FAILED, updated_at := clock FAILED,
                  processing_log := processing_log r @ (if e \<noteq> [] then [StatusMessage (clock FAILED) e] else [])\<rparr>)))"
  using assms
  by (simp add: parse_step_def update_status_def get_result_def store_result_def new_state_def Let_def)

text \<open>
  C1. When the extractor raises during the parsing stage, \<open>process_document\<close> returns
  without running any later stage, whatever those stages are, and the result the store then
  gives for the transaction (from memory, and from the file when it could be written) has
  the status \<open>FAILED\<close> and a processing log of the line written at the start and, if the
  exception has a message, that message: no line of the structuring stage. Its
  \<open>error_message\<close> however is \<open>None\<close>: the workflow hands \<open>str(e)\<close> to
  \<open>update_status\<close>, which appends it to the log and never assigns \<open>error_message\<close>,
  although the status route and the demo script read the error of a failed transaction from
  that field.
\<close>

theorem parse_failure_persisted:
  assumes "extraction = Inl e" and "getsize = Inr n"
  shows "\<exists>st' r.
       process_document tid file_path name getsize clock disk_ok extraction later_stages st
         = (Inr tid, st')
     \<and> fst (get_result tid st') = Some r
     \<and> (disk_ok FAILED \<longrightarrow> files st' tid = Some (Snapshot r))
     \<and> status r = FAILED
     \<and> processing_log r
         = StartedProcessing (clock PENDING) # (if e \<noteq> [] then [StatusMessage (clock FAILED) e] else [])
     \<and> (\<forall>l \<in> set (processing_log r). \<not> is_structuring_line l)
     \<and> error_message r = None"
proof -
  let ?meta = "\<lparr>filename = name, file_size = n,
                  document_type = initial_document_type name, page_count = 1,
                  upload_timestamp = clock PENDING, ocr_languages = [''en''],
                  ocr_models_used = [''tesseract'']\<rparr>"
  let ?init = "\<lparr>transaction_id = tid, status = PENDING, metadata = ?meta,
                  extracted_elements = [], raw_text = None, structured_data = None,
                  error_message = None, processing_log = [StartedProcessing (clock PENDING)],
                  created_at = clock PENDING, updated_at = clock PENDING\<rparr>"
  let ?st1 = "snd (store_result ?init (disk_ok PENDING) st)"
  let ?state = "new_state\<lparr>s_transaction_id := tid, s_file_path := file_path, s_filename := name\<rparr>"
  let ?r = "?init\<lparr>status := FAILED, updated_at := clock FAILED,
                  processing_log := processing_log ?init @ (if e \<noteq> [] then [StatusMessage (clock FAILED) e] else [])\<rparr>"
  have stored: "results ?st1 tid = Some ?init" by (simp add: store_result_def Let_def)
  have key: "transaction_id ?init = tid" by simp
  note pf = parse_failure_store [OF stored key, where e = e and clock = clock
      and disk_ok = disk_ok and fp = file_path and name = name]
  obtain state1 st2 where ps: "parse_step (Inl e) clock disk_ok ?state ?st1 = (state1, st2)"
    by (cases "parse_step (Inl e) clock disk_ok ?state ?st1")
  from pf have "results (snd (parse_step (Inl e) clock disk_ok ?state ?st1)) tid = Some ?r"
    by (rule conjunct1)
  with ps have res: "results st2 tid = Some ?r" by simp
  from pf have "s_status (fst (parse_step (Inl e) clock disk_ok ?state ?st1)) = FAILED"
    by (rule conjunct1 [OF conjunct2])
  with ps have failed: "s_status state1 = FAILED" by simp
  from pf have "disk_ok FAILED \<longrightarrow>
      files (snd (parse_step (Inl e) clock disk_ok ?state ?st1)) tid = Some (Snapshot ?r)"
    by (rule conjunct2 [OF conjunct2])
  with ps have on_disk: "disk_ok FAILED \<longrightarrow> files st2 tid = Some (Snapshot ?r)" by simp
  have "process_document tid file_path name getsize clock disk_ok extraction later_stages st
          = (case parse_step (Inl e) clock disk_ok ?state ?st1 of
               (state1, st2) \<Rightarrow> if s_status state1 = FAILED then (Inr tid, st2) else later_stages state1 st2)"
    using assms by (simp add: process_document_def Let_def)
  with ps failed have run: "process_document tid file_path name getsize clock disk_ok extraction later_stages st
         = (Inr tid, st2)" by simp
  from res have got: "fst (get_result tid st2) = Some ?r" by (simp add: get_result_def)
  have "status ?r = FAILED" by simp
  moreover have lg: "processing_log ?r
         = StartedProcessing (clock PENDING) # (if e \<noteq> [] then [StatusMessage (clock FAILED) e] else [])"
    by simp
  moreover have "\<forall>l \<in> set (processing_log ?r). \<not> is_structuring_line l"
    by (simp add: is_structuring_line_def)
  moreover have "error_message ?r = None" by simp
  ultimately show ?thesis using run got on_disk by blast
qed

theorem parse_failure_persisted_witness:
  "\<exists>st'. process_document ''t1'' ''/uploads/scan.pdf'' ''scan.pdf'' (Inr 2048) clock_reading
            writes_succeed (Inl ''corrupt file'') no_later_stages empty_storage = (Inr ''t1'', st')
     \<and> map_option status (fst (get_result ''t1'' st')) = Some FAILED
     \<and> map_option processing_log (fst (get_result ''t1'' st'))
          = Some [StartedProcessing 100, StatusMessage 102 ''corrupt file'']
     \<and> map_option error_message (fst (get_result ''t1'' st')) = Some None"
proof -
  have a: "(Inl ''corrupt file'' :: string + string \<times> raw_fragment list \<times> DocumentMetadata) = Inl ''corrupt file''"
    and b: "(Inr 2048 :: string + nat) = Inr 2048" by simp_all
  from parse_failure_persisted [OF a b, of "''t1''" "''/uploads/scan.pdf''" "''scan.pdf''"
      clock_reading writes_succeed no_later_stages empty_storage]
  show ?thesis by (auto simp: clock_reading_def)
qed

end
